theory Spec2Isabelle
  imports Main "HOL-Library.Sublist"
begin

section \<open>Values and strings of the host language\<close>

text \<open>
  The tool-call objects that travel through the program are untyped JavaScript values
  (\<^verbatim>\<open>any\<close>): whatever \<^verbatim>\<open>JSON.parse\<close> or \<^verbatim>\<open>yaml.load\<close> returned. Strings are
  lists of characters, one \<^typ>\<open>char\<close> per code unit.
\<close>

datatype jsval =
    JUndefined
  | JNull
  | JBool bool
  | JNum int
  | JStr string
  | JArr "jsval list"
  | JObj "(string \<times> jsval) list"

text \<open>Truthiness, as \<^verbatim>\<open>||\<close>, \<^verbatim>\<open>!\<close> and \<^verbatim>\<open>if\<close> use it.\<close>

fun truthy :: "jsval \<Rightarrow> bool" where
  "truthy JUndefined = False"
| "truthy JNull = False"
| "truthy (JBool b) = b"
| "truthy (JNum n) = (n \<noteq> 0)"
| "truthy (JStr s) = (s \<noteq> [])"
| "truthy (JArr _) = True"
| "truthy (JObj _) = True"

definition js_or :: "jsval \<Rightarrow> jsval \<Rightarrow> jsval" where
  "js_or a b = (if truthy a then a else b)"

text \<open>
  Reading a property of a value that is neither \<^verbatim>\<open>null\<close> nor \<^verbatim>\<open>undefined\<close>. The
  properties read by the program (\<^verbatim>\<open>id\<close>, \<^verbatim>\<open>tool_call_id\<close>, \<^verbatim>\<open>name\<close>,
  \<^verbatim>\<open>arguments\<close>) exist on objects only.
\<close>

fun get_prop :: "string \<Rightarrow> jsval \<Rightarrow> jsval" where
  "get_prop k (JObj kvs) = (case map_of kvs k of Some v \<Rightarrow> v | None \<Rightarrow> JUndefined)"
| "get_prop k _ = JUndefined"

fun nullish :: "jsval \<Rightarrow> bool" where
  "nullish JUndefined = True"
| "nullish JNull = True"
| "nullish _ = False"

text \<open>White space as \<^verbatim>\<open>String.prototype.trim\<close> sees it, and the class \<^verbatim>\<open>\w\<close>.\<close>

definition is_ws :: "char \<Rightarrow> bool" where
  "is_ws c = (c \<in> set [CHR 0x09, CHR 0x0A, CHR 0x0B, CHR 0x0C, CHR 0x0D, CHR 0x20, CHR 0xA0])"

definition is_word :: "char \<Rightarrow> bool" where
  "is_word c = (let n = (of_char c :: nat) in
     (48 \<le> n \<and> n \<le> 57) \<or> (65 \<le> n \<and> n \<le> 90) \<or> n = 95 \<or> (97 \<le> n \<and> n \<le> 122))"

definition trim :: "string \<Rightarrow> string" where
  "trim s = rev (dropWhile is_ws (rev (dropWhile is_ws s)))"

section \<open>Index scanning for the tag patterns\<close>

text \<open>
  \<open>find_tag t s\<close> splits \<open>s\<close> at the first occurrence of \<open>t\<close> into the text before it
  and the text after it.
\<close>

fun find_tag :: "string \<Rightarrow> string \<Rightarrow> (string \<times> string) option" where
  "find_tag t [] = (if t = [] then Some ([], []) else None)"
| "find_tag t (c # cs) =
     (if prefix t (c # cs) then Some ([], drop (length t) (c # cs))
      else (case find_tag t cs of
              None \<Rightarrow> None
            | Some (pre, post) \<Rightarrow> Some (c # pre, post)))"

text \<open>
  One match of a pattern \<^verbatim>\<open>open([\s\S]*?)close\<close>: the leftmost start at which the
  pattern matches is the first occurrence of the open tag (when no close tag follows
  the first open tag, none follows a later one), and the lazy group stops at the first
  close tag after it. The result is the text before the match, the captured group and
  the text after the match.
\<close>

definition match_block :: "string \<Rightarrow> string \<Rightarrow> string \<Rightarrow> (string \<times> string \<times> string) option" where
  "match_block opn cls s =
     (case find_tag opn s of
        None \<Rightarrow> None
      | Some (pre, rest) \<Rightarrow>
          (case find_tag cls rest of
             None \<Rightarrow> None
           | Some (inner, post) \<Rightarrow> Some (pre, inner, post)))"

datatype dialect = FunctionCall | ToolUse | ToolCall

fun open_tag :: "dialect \<Rightarrow> string" where
  "open_tag FunctionCall = ''<function_call>''"
| "open_tag ToolUse = ''<tool_use>''"
| "open_tag ToolCall = ''<tool_call>''"

fun close_tag :: "dialect \<Rightarrow> string" where
  "close_tag FunctionCall = ''</function_call>''"
| "close_tag ToolUse = ''</tool_use>''"
| "close_tag ToolCall = ''</tool_call>''"

definition exec_block :: "dialect \<Rightarrow> string \<Rightarrow> (string \<times> string \<times> string) option" where
  "exec_block d s = match_block (open_tag d) (close_tag d) s"

lemma find_tag_split: "find_tag t s = Some (pre, post) \<Longrightarrow> s = pre @ t @ post"
proof (induction s arbitrary: pre post)
  case Nil
  then show ?case by (simp split: if_splits)
next
  case (Cons c cs)
  show ?case
  proof (cases "prefix t (c # cs)")
    case True
    with Cons.prems have "pre = []" "post = drop (length t) (c # cs)" by simp_all
    moreover from True have "c # cs = t @ drop (length t) (c # cs)"
      by (metis append_eq_conv_conj prefixE)
    ultimately show ?thesis by simp
  next
    case False
    with Cons.prems obtain pre' where "find_tag t cs = Some (pre', post)" "pre = c # pre'"
      by (auto split: option.splits)
    with Cons.IH show ?thesis by simp
  qed
qed

lemma exec_block_split:
  "exec_block d s = Some (pre, inner, post) \<Longrightarrow> s = pre @ open_tag d @ inner @ close_tag d @ post"
  by (auto simp: exec_block_def match_block_def split: option.splits dest!: find_tag_split)

lemma exec_block_shorter: "exec_block d s = Some (pre, inner, post) \<Longrightarrow> length post < length s"
  by (drule exec_block_split) (cases d; simp)

text \<open>
  The loop \<^verbatim>\<open>while ((match = pat.exec(this.buffer)))\<close> over a global pattern: every
  match starts where the previous one ended; the captured groups are collected.
\<close>

function all_blocks :: "dialect \<Rightarrow> string \<Rightarrow> string list" where
  "all_blocks d s =
     (case exec_block d s of
        None \<Rightarrow> []
      | Some (pre, inner, post) \<Rightarrow> inner # all_blocks d post)"
  by pat_completeness auto
termination
  by (relation "measure (\<lambda>(d, s). length s)") (auto dest: exec_block_shorter)

text \<open>\<^verbatim>\<open>s.replace(/open[\s\S]*?close/g, '')\<close>: every match is cut out.\<close>

function remove_blocks :: "dialect \<Rightarrow> string \<Rightarrow> string" where
  "remove_blocks d s =
     (case exec_block d s of
        None \<Rightarrow> s
      | Some (pre, inner, post) \<Rightarrow> pre @ remove_blocks d post)"
  by pat_completeness auto
termination
  by (relation "measure (\<lambda>(d, s). length s)") (auto dest: exec_block_shorter)

declare all_blocks.simps [simp del] remove_blocks.simps [simp del]

section \<open>Payload decoder\<close>

text \<open>
  \<^verbatim>\<open>JSON.parse\<close> and \<^verbatim>\<open>yaml.load\<close> are library functions outside this repository; the
  decoder takes them as parameters. \<open>None\<close> stands for a thrown exception.
\<close>

record parsers =
  json_parse :: "string \<Rightarrow> jsval option"
  yaml_load :: "string \<Rightarrow> jsval option"

datatype decode_error =
    JsonSyntaxError
  | MalformedJson
  | YamlException
  | NoNameInXml
  | CouldNotParse

datatype format = Json | Xml | Yaml | AutoFormat

definition fence :: string where
  "fence = [CHR 0x60, CHR 0x60, CHR 0x60]"

text \<open>
  The pattern \<^verbatim>\<open>^```(?:\w+)?\n([\s\S]*?)\n```$\<close> on a trimmed text: three backticks, the
  longest run of word characters, a line feed, then a body that ends with a line feed
  and three backticks at the very end of the text. The captured group is the body
  without these last four characters.
\<close>

definition fence_body :: "string \<Rightarrow> string option" where
  "fence_body t =
     (if prefix fence t then
        (case dropWhile is_word (drop 3 t) of
           [] \<Rightarrow> None
         | c # body \<Rightarrow>
             if c = CHR 0x0A \<and> suffix (CHR 0x0A # fence) body
             then Some (take (length body - 4) body) else None)
      else None)"

definition stripMarkdownCodeBlock :: "string \<Rightarrow> string" where
  "stripMarkdownCodeBlock text =
     (case fence_body (trim text) of
        Some inner \<Rightarrow> trim inner
      | None \<Rightarrow> trim text)"

text \<open>
  The pattern \<^verbatim>\<open>({[\s\S]*})\<close>: from the first opening brace to the last closing
  brace after it.
\<close>

definition json_substring :: "string \<Rightarrow> string option" where
  "json_substring s =
     (case dropWhile (\<lambda>c. c \<noteq> CHR ''{'') s of
        [] \<Rightarrow> None
      | b # r \<Rightarrow>
          (case dropWhile (\<lambda>c. c \<noteq> CHR ''}'') (rev r) of
             [] \<Rightarrow> None
           | e # m \<Rightarrow> Some (b # rev (e # m))))"

definition tryParseJson :: "parsers \<Rightarrow> string \<Rightarrow> decode_error + jsval" where
  "tryParseJson P str =
     (case json_parse P str of
        Some v \<Rightarrow> Inr v
      | None \<Rightarrow>
          (case json_substring str of
             Some m \<Rightarrow> (case json_parse P m of Some v \<Rightarrow> Inr v | None \<Rightarrow> Inl JsonSyntaxError)
           | None \<Rightarrow> Inl MalformedJson))"

definition parseXml :: "parsers \<Rightarrow> string \<Rightarrow> decode_error + jsval" where
  "parseXml P str =
     (let nameMatch = match_block ''<name>'' ''</name>'' str;
          argsMatch = match_block ''<arguments>'' ''</arguments>'' str
      in case nameMatch of
           None \<Rightarrow> Inl NoNameInXml
         | Some (_, nm, _) \<Rightarrow>
             (let args = (case argsMatch of Some (_, a, _) \<Rightarrow> trim a | None \<Rightarrow> ''{}'');
                  args' = (case json_parse P args of
                             Some v \<Rightarrow> v
                           | None \<Rightarrow> (case yaml_load P args of Some v \<Rightarrow> v | None \<Rightarrow> JStr args))
              in Inr (JObj [(''name'', JStr (trim nm)), (''arguments'', args')])))"

definition yamlLoad :: "parsers \<Rightarrow> string \<Rightarrow> decode_error + jsval" where
  "yamlLoad P str = (case yaml_load P str of Some v \<Rightarrow> Inr v | None \<Rightarrow> Inl YamlException)"

text \<open>
  The type of \<^verbatim>\<open>format\<close> admits the four values below, so the last branch of the
  source (\<^verbatim>\<open>Unknown format\<close>) has no counterpart.
\<close>

definition parseToolCallPayload :: "parsers \<Rightarrow> string \<Rightarrow> format \<Rightarrow> decode_error + jsval" where
  "parseToolCallPayload P str0 fmt =
     (let str = stripMarkdownCodeBlock (trim str0) in
      case fmt of
        Json \<Rightarrow> tryParseJson P str
      | Yaml \<Rightarrow> yamlLoad P str
      | Xml \<Rightarrow> parseXml P str
      | AutoFormat \<Rightarrow>
          (case tryParseJson P str of
             Inr v \<Rightarrow> Inr v
           | Inl _ \<Rightarrow>
               (case yamlLoad P str of
                  Inr v \<Rightarrow> Inr v
                | Inl _ \<Rightarrow>
                    (case parseXml P str of
                       Inr v \<Rightarrow> Inr v
                     | Inl _ \<Rightarrow> Inl CouldNotParse))))"

section \<open>Streaming tool-call buffer\<close>

datatype protocol = FunctionCalling | ToolUseProtocol | ToolProtocol | AutoProtocol

record tcbuffer =
  buffer :: string
  format :: format
  protocol :: protocol

definition new_buffer :: "protocol \<Rightarrow> format option \<Rightarrow> tcbuffer" where
  "new_buffer p f =
     \<lparr>buffer = [], format = (case f of Some x \<Rightarrow> x | None \<Rightarrow> AutoFormat), protocol = p\<rparr>"

fun patterns :: "protocol \<Rightarrow> dialect list" where
  "patterns FunctionCalling = [FunctionCall]"
| "patterns ToolUseProtocol = [ToolUse]"
| "patterns ToolProtocol = [ToolCall, FunctionCall]"
| "patterns AutoProtocol = [FunctionCall, ToolUse, ToolCall]"

text \<open>The calls one pattern contributes: the blocks whose payload decodes, in order.\<close>

definition parsed_blocks :: "parsers \<Rightarrow> format \<Rightarrow> string \<Rightarrow> dialect \<Rightarrow> jsval list" where
  "parsed_blocks P fmt s d =
     List.map_filter
       (\<lambda>inner. case parseToolCallPayload P inner fmt of Inr v \<Rightarrow> Some v | Inl _ \<Rightarrow> None)
       (all_blocks d s)"

definition remove_all_blocks :: "string \<Rightarrow> string" where
  "remove_all_blocks s = remove_blocks ToolCall (remove_blocks ToolUse (remove_blocks FunctionCall s))"

text \<open>
  \<^verbatim>\<open>push\<close> returns the detected calls (\<open>None\<close> for \<^verbatim>\<open>null\<close>) and the buffer object
  after the call. The flag \<^verbatim>\<open>found\<close> is set together with every
  \<^verbatim>\<open>toolCalls.push\<close>.
\<close>

definition push :: "parsers \<Rightarrow> string \<Rightarrow> tcbuffer \<Rightarrow> jsval list option \<times> tcbuffer" where
  "push P chunk b =
     (let buf = buffer b @ chunk;
          toolCalls = concat (map (parsed_blocks P (format b) buf) (patterns (protocol b)));
          found = (toolCalls \<noteq> [])
      in if found
         then (if toolCalls \<noteq> [] then Some toolCalls else None, b\<lparr>buffer := remove_all_blocks buf\<rparr>)
         else (None, b\<lparr>buffer := buf\<rparr>))"

definition getRawBuffer :: "tcbuffer \<Rightarrow> string" where
  "getRawBuffer b = buffer b"

definition at_open_tag :: "string \<Rightarrow> bool" where
  "at_open_tag s =
     (prefix ''<function_call>'' s \<or> prefix ''<tool_use>'' s \<or> prefix ''<tool_call>'' s)"

text \<open>The text before the leftmost match of \<^verbatim>\<open><function_call>|<tool_use>|<tool_call>\<close>.\<close>

fun visible_prefix :: "string \<Rightarrow> string" where
  "visible_prefix [] = []"
| "visible_prefix (c # cs) = (if at_open_tag (c # cs) then [] else c # visible_prefix cs)"

definition getVisibleContent :: "tcbuffer \<Rightarrow> string" where
  "getVisibleContent b = visible_prefix (buffer b)"

section \<open>Messages, tools and the conversation\<close>

text \<open>
  A chat message: its role and content; a tool message also carries the tool name and
  the arguments.
\<close>

datatype message =
    SystemMsg string
  | UserMsg string
  | AssistantMsg string
  | ToolMsg jsval string jsval

text \<open>
  A thrown value: an \<^verbatim>\<open>Error\<close> object with its name and message, or any other value,
  given by its conversion to a string.
\<close>

datatype thrown = ErrorObj string string | NonError string

text \<open>\<^verbatim>\<open>`${e}`\<close>, and \<^verbatim>\<open>error instanceof Error ? error.message : 'Unknown error'\<close>.\<close>

fun thrown_string :: "thrown \<Rightarrow> string" where
  "thrown_string (ErrorObj n m) = (if n = [] then m else if m = [] then n else n @ '': '' @ m)"
| "thrown_string (NonError s) = s"

fun thrown_message :: "thrown \<Rightarrow> string" where
  "thrown_message (ErrorObj n m) = m"
| "thrown_message (NonError s) = ''Unknown error''"

text \<open>
  A registered tool. The schema validator and the handler are supplied by the caller of
  the library: \<open>schema\<close> returns the parsed arguments, fails with a \<^verbatim>\<open>ZodError\<close> (its
  issue messages and its own message) or throws something else. The handler has effects,
  so what it does may depend on the invocations made before; \<open>late\<close> tells whether an
  invocation is still pending when the session's timeout fires.
\<close>

datatype zod_outcome = ZodOk jsval | ZodError "string list" string | SchemaThrows thrown

datatype settle = Returns jsval | Throws thrown

type_synonym invocation = "string \<times> jsval"

record tool =
  tname :: string
  schema :: "jsval \<Rightarrow> zod_outcome"
  handler :: "invocation list \<Rightarrow> jsval \<Rightarrow> settle"
  late :: "invocation list \<Rightarrow> jsval \<Rightarrow> bool"

type_synonym registry = "string \<Rightarrow> tool option"

text \<open>\<^verbatim>\<open>Map.get\<close> on the registry, whose keys are strings.\<close>

fun getTool :: "registry \<Rightarrow> jsval \<Rightarrow> tool option" where
  "getTool reg (JStr s) = reg s"
| "getTool reg _ = None"

text \<open>
  The conversation history, and the log of handler invocations made so far (tool name
  and the arguments passed to the handler).
\<close>

record session =
  history :: "message list"
  invocations :: "invocation list"

definition addMessage :: "message \<Rightarrow> session \<Rightarrow> session" where
  "addMessage m st = st\<lparr>history := history st @ [m]\<rparr>"

text \<open>
  \<^verbatim>\<open>JSON.stringify\<close> and the conversion of a non-string value inside a template
  literal are library functions, taken as parameters.
\<close>

record env =
  decoders :: parsers
  registry :: registry
  json_stringify :: "jsval \<Rightarrow> string"
  to_text :: "jsval \<Rightarrow> string"

fun template :: "env \<Rightarrow> jsval \<Rightarrow> string" where
  "template E (JStr s) = s"
| "template E v = to_text E v"

text \<open>\<^verbatim>\<open>typeof toolResult === 'string' ? toolResult : JSON.stringify(toolResult)\<close>\<close>

fun result_text :: "(jsval \<Rightarrow> string) \<Rightarrow> jsval \<Rightarrow> string" where
  "result_text str (JStr s) = s"
| "result_text str v = str v"

definition quoted :: "string \<Rightarrow> string" where
  "quoted s = CHR 0x27 # s @ [CHR 0x27]"

fun join :: "string \<Rightarrow> string list \<Rightarrow> string" where
  "join sep [] = []"
| "join sep [x] = x"
| "join sep (x # y # ys) = x @ sep @ join sep (y # ys)"

record tool_call_result =
  r_id :: "jsval option"
  r_name :: jsval
  r_args :: jsval
  r_result :: "jsval option"
  r_error :: "string option"
  r_raw :: jsval

section \<open>handleToolCallFromModelOutput\<close>

text \<open>
  \<^verbatim>\<open>Set.has\<close> compares primitives by value and objects by identity; every parsed call
  is a fresh object, so an object used as an id is never found again.
\<close>

fun primitive :: "jsval \<Rightarrow> bool" where
  "primitive (JArr _) = False"
| "primitive (JObj _) = False"
| "primitive _ = True"

definition seen_has :: "jsval set \<Rightarrow> jsval \<Rightarrow> bool" where
  "seen_has S v = (primitive v \<and> v \<in> S)"

definition callId :: "jsval \<Rightarrow> jsval" where
  "callId toolCall = js_or (get_prop ''id'' toolCall) (get_prop ''tool_call_id'' toolCall)"

text \<open>The \<^verbatim>\<open>catch\<close> block of the loop body.\<close>

definition call_error :: "jsval \<Rightarrow> thrown \<Rightarrow> session \<Rightarrow> session \<times> tool_call_result list" where
  "call_error toolCall e st =
     (let errMsg = ''Function/tool call error: '' @ thrown_string e
      in (addMessage (AssistantMsg errMsg) st,
          [\<lparr>r_id = Some (callId toolCall),
            r_name = js_or (get_prop ''name'' toolCall) (JStr ''unknown''),
            r_args = js_or (get_prop ''arguments'' toolCall) (JObj []),
            r_result = None, r_error = Some errMsg, r_raw = toolCall\<rparr>]))"

text \<open>The \<^verbatim>\<open>try\<close> block of the loop body, for a call that is not skipped.\<close>

definition run_call :: "env \<Rightarrow> jsval \<Rightarrow> session \<Rightarrow> session \<times> tool_call_result list" where
  "run_call E toolCall st =
     (if \<not> truthy (get_prop ''name'' toolCall)
      then call_error toolCall (ErrorObj ''Error'' ''No tool/function name specified.'') st
      else case getTool (registry E) (get_prop ''name'' toolCall) of
        None \<Rightarrow>
          call_error toolCall
            (ErrorObj ''Error''
               (''Tool '' @ quoted (template E (get_prop ''name'' toolCall)) @ '' not registered.'')) st
      | Some tool \<Rightarrow>
          (case schema tool (js_or (get_prop ''arguments'' toolCall) (JObj [])) of
             ZodError issues msg \<Rightarrow>
               (let errMsg = ''Invalid arguments for tool '' @ quoted (tname tool) @ '': ''
                               @ join ''; '' issues
                in (addMessage (AssistantMsg errMsg) st,
                    [\<lparr>r_id = Some (callId toolCall), r_name = JStr (tname tool),
                      r_args = js_or (get_prop ''arguments'' toolCall) (JObj []),
                      r_result = None, r_error = Some errMsg, r_raw = toolCall\<rparr>]))
           | SchemaThrows e \<Rightarrow> call_error toolCall e st
           | ZodOk parsedArgs \<Rightarrow>
               (let st1 = st\<lparr>invocations := invocations st @ [(tname tool, parsedArgs)]\<rparr>
                in case handler tool (invocations st) parsedArgs of
                     Throws e \<Rightarrow> call_error toolCall e st1
                   | Returns toolResult \<Rightarrow>
                       (addMessage
                          (ToolMsg (JStr (tname tool)) (result_text (json_stringify E) toolResult)
                             parsedArgs) st1,
                        [\<lparr>r_id = Some (callId toolCall), r_name = JStr (tname tool),
                          r_args = parsedArgs, r_result = Some toolResult, r_error = None,
                          r_raw = toolCall\<rparr>]))))"

text \<open>
  One iteration of the loop over the detected calls: the seen-id set, the session and
  the results appended by this iteration.
\<close>

definition handle_call ::
  "env \<Rightarrow> jsval \<Rightarrow> jsval set \<times> session \<Rightarrow> (jsval set \<times> session) \<times> tool_call_result list" where
  "handle_call E toolCall = (\<lambda>(seenIds, st).
     if truthy (callId toolCall) \<and> seen_has seenIds (callId toolCall)
     then ((seenIds, st), [])
     else (let seenIds' = (if truthy (callId toolCall) then insert (callId toolCall) seenIds
                           else seenIds);
               (st', rs) = run_call E toolCall st
           in ((seenIds', st'), rs)))"

text \<open>
  The loop. Reading \<^verbatim>\<open>toolCall.id\<close> of \<^verbatim>\<open>null\<close> or \<^verbatim>\<open>undefined\<close> throws a
  \<^verbatim>\<open>TypeError\<close> outside the \<^verbatim>\<open>try\<close> block, which ends the whole function; what was
  done before stays done.
\<close>

datatype 'a completion = Resolved 'a | Rejected thrown

fun handle_calls ::
  "env \<Rightarrow> jsval list \<Rightarrow> jsval set \<times> session \<Rightarrow> tool_call_result list
     \<Rightarrow> tool_call_result list completion \<times> jsval set \<times> session" where
  "handle_calls E [] ss results = (Resolved results, ss)"
| "handle_calls E (toolCall # rest) ss results =
     (if nullish toolCall then (Rejected (ErrorObj ''TypeError'' []), ss)
      else (let (ss', rs) = handle_call E toolCall ss
            in handle_calls E rest ss' (results @ rs)))"

definition none_result :: "string \<Rightarrow> tool_call_result" where
  "none_result modelOutput =
     \<lparr>r_id = None, r_name = JStr ''none'', r_args = JObj [],
      r_result = Some (JStr modelOutput), r_error = None, r_raw = JStr modelOutput\<rparr>"

text \<open>
  The second component of the argument pair is the session that \<^verbatim>\<open>addMessage\<close> writes
  to, the first the set \<^verbatim>\<open>processedToolCallIds\<close> (empty when the caller passes none).
\<close>

definition handleToolCallFromModelOutput ::
  "env \<Rightarrow> protocol \<Rightarrow> format \<Rightarrow> string \<Rightarrow> jsval set \<times> session
     \<Rightarrow> tool_call_result list completion \<times> jsval set \<times> session" where
  "handleToolCallFromModelOutput E proto toolCallFormat modelOutput ss =
     (case fst (push (decoders E) modelOutput (new_buffer proto (Some toolCallFormat))) of
        Some (c # cs) \<Rightarrow> handle_calls E (c # cs) ss []
      | _ \<Rightarrow> (Resolved [none_result modelOutput],
               (fst ss, addMessage (AssistantMsg modelOutput) (snd ss))))"

section \<open>LegacyChatSession.chat: the loop over the segments\<close>

datatype lsegment = LContent string | LToolCall jsval

text \<open>A tool-call segment: both outcomes append a message with the role \<^verbatim>\<open>tool\<close>.\<close>

definition legacy_error :: "jsval \<Rightarrow> thrown \<Rightarrow> session \<Rightarrow> session" where
  "legacy_error toolCall e st =
     addMessage
       (ToolMsg (js_or (get_prop ''name'' toolCall) (JStr ''unknown''))
          (''Function/tool call error: '' @ thrown_string e)
          (js_or (get_prop ''arguments'' toolCall) (JObj []))) st"

definition legacy_call :: "env \<Rightarrow> jsval \<Rightarrow> session \<Rightarrow> session" where
  "legacy_call E toolCall st =
     (if \<not> truthy (get_prop ''name'' toolCall)
      then legacy_error toolCall (ErrorObj ''Error'' ''No tool/function name specified.'') st
      else case getTool (registry E) (get_prop ''name'' toolCall) of
        None \<Rightarrow>
          legacy_error toolCall
            (ErrorObj ''Error''
               (''Tool '' @ quoted (template E (get_prop ''name'' toolCall)) @ '' not registered.'')) st
      | Some tool \<Rightarrow>
          (case schema tool (js_or (get_prop ''arguments'' toolCall) (JObj [])) of
             ZodError issues msg \<Rightarrow> legacy_error toolCall (ErrorObj ''ZodError'' msg) st
           | SchemaThrows e \<Rightarrow> legacy_error toolCall e st
           | ZodOk parsedArgs \<Rightarrow>
               (let st1 = st\<lparr>invocations := invocations st @ [(tname tool, parsedArgs)]\<rparr>
                in case handler tool (invocations st) parsedArgs of
                     Throws e \<Rightarrow> legacy_error toolCall e st1
                   | Returns toolResult \<Rightarrow>
                       addMessage
                         (ToolMsg (JStr (tname tool)) (result_text (json_stringify E) toolResult)
                            parsedArgs) st1)))"

text \<open>
  The loop carries the session, \<^verbatim>\<open>visibleText\<close> and \<^verbatim>\<open>contentBuffer\<close>. As in
  \<open>handle_calls\<close>, a call that is \<^verbatim>\<open>null\<close> or \<^verbatim>\<open>undefined\<close> ends the function with a
  \<^verbatim>\<open>TypeError\<close>.
\<close>

fun legacy_segments ::
  "env \<Rightarrow> bool \<Rightarrow> lsegment list \<Rightarrow> session \<times> string \<times> string
     \<Rightarrow> (string \<times> string) completion \<times> session" where
  "legacy_segments E combine [] (st, visibleText, contentBuffer) =
     (Resolved (visibleText, contentBuffer), st)"
| "legacy_segments E combine (LContent text # segs) (st, visibleText, contentBuffer) =
     (if combine then legacy_segments E combine segs (st, visibleText, contentBuffer @ text)
      else if trim text \<noteq> []
      then legacy_segments E combine segs
             (addMessage (AssistantMsg text) st, visibleText @ text, contentBuffer)
      else legacy_segments E combine segs (st, visibleText, contentBuffer))"
| "legacy_segments E combine (LToolCall toolCall # segs) (st, visibleText, contentBuffer) =
     (if nullish toolCall then (Rejected (ErrorObj ''TypeError'' []), st)
      else legacy_segments E combine segs (legacy_call E toolCall st, visibleText, contentBuffer))"

text \<open>The loop followed by the flush of the content buffer; the result is \<^verbatim>\<open>visibleText\<close>.\<close>

definition legacy_round :: "env \<Rightarrow> bool \<Rightarrow> lsegment list \<Rightarrow> session \<Rightarrow> string completion \<times> session" where
  "legacy_round E combine segs st =
     (case legacy_segments E combine segs (st, [], []) of
        (Rejected e, st') \<Rightarrow> (Rejected e, st')
      | (Resolved (visibleText, contentBuffer), st') \<Rightarrow>
          if combine \<and> trim contentBuffer \<noteq> []
          then (Resolved (visibleText @ contentBuffer), addMessage (AssistantMsg contentBuffer) st')
          else (Resolved visibleText, st'))"

section \<open>ChatSession\<close>

record tool_call =
  tc_id :: "string option"
  tc_name :: string
  tc_arguments :: jsval

datatype segment = Content string | ToolCallSeg tool_call | OtherSeg

text \<open>
  What the session is built from: the provider followed by the extractor gives the
  segments of a round, as a function of the number of the model invocation and of the
  history sent (or throws); the tool service may be absent.
\<close>

record chat_env =
  completion :: "nat \<Rightarrow> message list \<Rightarrow> thrown + segment list"
  mcpService :: "registry option"
  stringify :: "jsval \<Rightarrow> string"
  agenticMode :: bool
  maxAgenticIterations :: "int option"

text \<open>
  \<^verbatim>\<open>MCPService.executeTool\<close>: the invocation log after the call, whether the call is
  still pending when the timeout fires, and how it settles.
\<close>

definition executeTool ::
  "registry \<Rightarrow> invocation list \<Rightarrow> string \<Rightarrow> jsval \<Rightarrow> invocation list \<times> bool \<times> settle" where
  "executeTool reg log name args =
     (case reg name of
        None \<Rightarrow> (log, False, Throws (ErrorObj ''Error'' (''Tool '' @ quoted name @ '' not found'')))
      | Some tool \<Rightarrow>
          (case schema tool args of
             ZodError issues msg \<Rightarrow> (log, False, Throws (ErrorObj ''ZodError'' msg))
           | SchemaThrows e \<Rightarrow> (log, False, Throws e)
           | ZodOk parsedArgs \<Rightarrow>
               (log @ [(tname tool, parsedArgs)], late tool log parsedArgs,
                handler tool log parsedArgs)))"

text \<open>\<^verbatim>\<open>Promise.race\<close> of the tool call against the timer.\<close>

definition race :: "bool \<times> settle \<Rightarrow> settle" where
  "race r = (if fst r then Throws (ErrorObj ''Error'' ''Tool call timeout'') else snd r)"

text \<open>
  The body of the loop of \<^verbatim>\<open>executeToolCalls\<close>. The list \<^verbatim>\<open>toolCallResults\<close> and the
  callbacks are left out: they carry time stamps and do not touch the history.
\<close>

definition execute_call :: "chat_env \<Rightarrow> tool_call \<Rightarrow> session \<Rightarrow> session" where
  "execute_call E toolCall st =
     (case mcpService E of
        None \<Rightarrow>
          addMessage (AssistantMsg (''Error executing '' @ tc_name toolCall @ '': ''
                                     @ ''MCP service not available'')) st
      | Some reg \<Rightarrow>
          (case executeTool reg (invocations st) (tc_name toolCall) (tc_arguments toolCall) of
             (log, pending, outcome) \<Rightarrow>
               (case race (pending, outcome) of
                  Returns result \<Rightarrow>
                    addMessage
                      (ToolMsg (JStr (tc_name toolCall)) (result_text (stringify E) result)
                         (tc_arguments toolCall))
                      (st\<lparr>invocations := log\<rparr>)
                | Throws error \<Rightarrow>
                    addMessage
                      (AssistantMsg (''Error executing '' @ tc_name toolCall @ '': ''
                                      @ thrown_message error))
                      (st\<lparr>invocations := log\<rparr>))))"

fun executeToolCalls :: "chat_env \<Rightarrow> tool_call list \<Rightarrow> session \<Rightarrow> session" where
  "executeToolCalls E [] st = st"
| "executeToolCalls E (toolCall # rest) st = executeToolCalls E rest (execute_call E toolCall st)"

fun segment_text :: "segment \<Rightarrow> string" where
  "segment_text (Content t) = t"
| "segment_text _ = []"

fun segment_calls :: "segment \<Rightarrow> tool_call list" where
  "segment_calls (ToolCallSeg c) = [c]"
| "segment_calls _ = []"

definition processSegments :: "chat_env \<Rightarrow> segment list \<Rightarrow> session \<Rightarrow> string \<times> session" where
  "processSegments E segments st =
     (let assistantContent = concat (map segment_text segments);
          toolCalls = concat (map segment_calls segments);
          st1 = (if trim assistantContent \<noteq> [] then addMessage (AssistantMsg assistantContent) st
                 else st);
          st2 = (if toolCalls \<noteq> [] \<and> mcpService E \<noteq> None then executeToolCalls E toolCalls st1
                 else st1)
      in (assistantContent, st2))"

definition hasToolCalls :: "segment list \<Rightarrow> bool" where
  "hasToolCalls segments = list_ex (\<lambda>s. case s of ToolCallSeg _ \<Rightarrow> True | _ \<Rightarrow> False) segments"

text \<open>\<^verbatim>\<open>this.options.maxAgenticIterations || 5\<close>\<close>

definition iteration_limit :: "chat_env \<Rightarrow> int" where
  "iteration_limit E = (case maxAgenticIterations E of
                          None \<Rightarrow> 5
                        | Some n \<Rightarrow> if n = 0 then 5 else n)"

text \<open>
  The loop of \<^verbatim>\<open>agenticChat\<close>, from the value \<open>iterations\<close> of its counter. The state
  is the session and the number of model invocations made so far;
  \<^verbatim>\<open>finalResponse\<close> is still the empty string whenever the loop condition is tested.
\<close>

function agentic_loop ::
  "chat_env \<Rightarrow> int \<Rightarrow> session \<times> nat \<Rightarrow> string completion \<times> session \<times> nat" where
  "agentic_loop E iterations (st, n) =
     (if iterations < iteration_limit E then
        (case completion E n (history st) of
           Inl e \<Rightarrow> (Rejected e, st, Suc n)
         | Inr segments \<Rightarrow>
             (case processSegments E segments st of
                (result, st') \<Rightarrow>
                  if \<not> hasToolCalls segments then (Resolved result, st', Suc n)
                  else agentic_loop E (iterations + 1) (st', Suc n)))
      else (Resolved [], st, n))"
  by pat_completeness auto
termination
  by (relation "measure (\<lambda>(E, i, s). nat (iteration_limit E - i))") auto

declare agentic_loop.simps [simp del]

definition agenticChat :: "chat_env \<Rightarrow> session \<times> nat \<Rightarrow> string completion \<times> session \<times> nat" where
  "agenticChat E sn = agentic_loop E 0 sn"

definition singleTurnChat :: "chat_env \<Rightarrow> session \<times> nat \<Rightarrow> string completion \<times> session \<times> nat" where
  "singleTurnChat E = (\<lambda>(st, n).
     case completion E n (history st) of
       Inl e \<Rightarrow> (Rejected e, st, Suc n)
     | Inr segments \<Rightarrow>
         (case processSegments E segments st of (result, st') \<Rightarrow> (Resolved result, st', Suc n)))"

definition chat :: "chat_env \<Rightarrow> string \<Rightarrow> session \<times> nat \<Rightarrow> string completion \<times> session \<times> nat" where
  "chat E message = (\<lambda>(st, n).
     let st1 = addMessage (UserMsg message) st
     in if agenticMode E then agenticChat E (st1, n) else singleTurnChat E (st1, n))"

section \<open>Tags, partial tags and runs of pushes\<close>

text \<open>The tags of the three dialects.\<close>

definition dialects :: "dialect list" where
  "dialects = [FunctionCall, ToolUse, ToolCall]"

definition open_tags :: "string list" where
  "open_tags = map open_tag dialects"

definition all_tags :: "string list" where
  "all_tags = open_tags @ map close_tag dialects"

text \<open>A text ends in a partial open tag when a non-empty end of it begins an open tag.\<close>

definition partial_tag_pending :: "string \<Rightarrow> bool" where
  "partial_tag_pending s =
     (\<exists>u \<in> set (suffixes s). u \<noteq> [] \<and> (\<exists>t \<in> set open_tags. strict_prefix u t))"

text \<open>A text is settled when no open tag lies in it and none has begun at its end.\<close>

definition settled :: "string \<Rightarrow> bool" where
  "settled v = ((\<forall>t \<in> set open_tags. \<not> sublist t v) \<and> \<not> partial_tag_pending v)"

text \<open>
  A streaming turn: the chunks are pushed one after the other; for every push, what it
  returned and the visible content after it.
\<close>

fun push_all ::
  "parsers \<Rightarrow> string list \<Rightarrow> tcbuffer \<Rightarrow> (jsval list option \<times> string) list \<times> tcbuffer" where
  "push_all P [] b = ([], b)"
| "push_all P (chunk # chunks) b =
     (case push P chunk b of
        (r, b') \<Rightarrow>
          (case push_all P chunks b' of
             (rs, b'') \<Rightarrow> ((r, getVisibleContent b') # rs, b'')))"

section \<open>A concrete environment for the examples\<close>

text \<open>
  Stand-ins for the two library parsers, for use in the examples below: they decode the
  texts named here, to the values the libraries give for them, and fail on every other
  text.
\<close>

definition call_x_text :: string where
  "call_x_text = ''{\"name\":\"x\",\"arguments\":{}}''"

definition call_x :: jsval where
  "call_x = JObj [(''name'', JStr ''x''), (''arguments'', JObj [])]"

definition demo_parsers :: parsers where
  "demo_parsers =
     \<lparr>json_parse = (\<lambda>s. if s = call_x_text then Some call_x
                        else if s = ''{}'' then Some (JObj []) else None),
      yaml_load = (\<lambda>s. if s = call_x_text then Some call_x
                       else if s = ''name: x'' then Some (JObj [(''name'', JStr ''x'')])
                       else None)\<rparr>"

text \<open>
  A registry with four tools: one accepts every argument and answers \<open>ok\<close>, one rejects
  its arguments, one throws, one does not answer in time.
\<close>

definition echo_tool :: tool where
  "echo_tool = \<lparr>tname = ''echo'', schema = ZodOk, handler = (\<lambda>log args. Returns (JStr ''ok'')),
                 late = (\<lambda>log args. False)\<rparr>"

definition strict_tool :: tool where
  "strict_tool = \<lparr>tname = ''strict'', schema = (\<lambda>args. ZodError [''Required''] ''[issues]''),
                   handler = (\<lambda>log args. Returns JNull), late = (\<lambda>log args. False)\<rparr>"

definition failing_tool :: tool where
  "failing_tool = \<lparr>tname = ''failing'', schema = ZodOk,
                    handler = (\<lambda>log args. Throws (ErrorObj ''Error'' ''boom'')),
                    late = (\<lambda>log args. False)\<rparr>"

definition slow_tool :: tool where
  "slow_tool = \<lparr>tname = ''slow'', schema = ZodOk, handler = (\<lambda>log args. Returns (JStr ''done'')),
                 late = (\<lambda>log args. True)\<rparr>"

definition demo_registry :: registry where
  "demo_registry n =
     (if n = ''echo'' then Some echo_tool
      else if n = ''strict'' then Some strict_tool
      else if n = ''failing'' then Some failing_tool
      else if n = ''slow'' then Some slow_tool
      else None)"

definition demo_env :: env where
  "demo_env = \<lparr>decoders = demo_parsers, registry = demo_registry,
                json_stringify = (\<lambda>v. ''[json]''), to_text = (\<lambda>v. ''[text]'')\<rparr>"

definition session0 :: session where
  "session0 = \<lparr>history = [], invocations = []\<rparr>"

text \<open>Parsed calls: two for the registered tool, one for a tool that is not registered.\<close>

definition call_a :: jsval where
  "call_a = JObj [(''id'', JStr ''a''), (''name'', JStr ''echo''), (''arguments'', JObj [])]"



text \<open>The text and the calls of the segments of \<^verbatim>\<open>LegacyChatSession.chat\<close>.\<close>

fun lsegment_text :: "lsegment \<Rightarrow> string" where
  "lsegment_text (LContent t) = t"
| "lsegment_text _ = []"

fun lsegment_calls :: "lsegment \<Rightarrow> jsval list" where
  "lsegment_calls (LToolCall c) = [c]"
| "lsegment_calls _ = []"

text \<open>A session whose model answers every round with a text and a call of the tool.\<close>

definition demo_call :: tool_call where
  "demo_call = \<lparr>tc_id = Some ''call_1'', tc_name = ''echo'', tc_arguments = JObj []\<rparr>"

definition demo_chat_env :: chat_env where
  "demo_chat_env = \<lparr>completion = (\<lambda>n h. Inr [Content ''a'', ToolCallSeg demo_call]),
                     mcpService = Some demo_registry, stringify = (\<lambda>v. ''[json]''),
                     agenticMode = True, maxAgenticIterations = Some 2\<rparr>"


text \<open>The same session outside agentic mode.\<close>

definition demo_single_env :: chat_env where
  "demo_single_env = demo_chat_env\<lparr>agenticMode := False\<rparr>"

text \<open>The same session with a model that answers with a text only.\<close>

definition demo_plain_env :: chat_env where
  "demo_plain_env = demo_chat_env\<lparr>completion := (\<lambda>n h. Inr [Content ''done''])\<rparr>"

section \<open>The payload decoder in automatic mode\<close>

text \<open>
  Claim C7. With the format \<^verbatim>\<open>auto\<close> the decoder tries JSON, then YAML, then XML on
  the trimmed payload without its code fence, and returns the result of the first
  attempt that succeeds; it fails exactly when all three attempts fail, and then with
  the one aggregate error.
\<close>

theorem parse_auto_order:
  assumes "t = stripMarkdownCodeBlock (trim s)"
  shows "(tryParseJson P t = Inr v \<longrightarrow> parseToolCallPayload P s AutoFormat = Inr v) \<and>
         (tryParseJson P t = Inl e \<and> yaml_load P t = Some v
            \<longrightarrow> parseToolCallPayload P s AutoFormat = Inr v) \<and>
         (tryParseJson P t = Inl e \<and> yaml_load P t = None \<and> parseXml P t = Inr v
            \<longrightarrow> parseToolCallPayload P s AutoFormat = Inr v) \<and>
         ((\<exists>err. parseToolCallPayload P s AutoFormat = Inl err)
            \<longleftrightarrow> (\<exists>e1 e3. tryParseJson P t = Inl e1 \<and> yaml_load P t = None
                          \<and> parseXml P t = Inl e3)) \<and>
         (parseToolCallPayload P s AutoFormat = Inl err \<longrightarrow> err = CouldNotParse)"
  using assms
  by (auto simp: parseToolCallPayload_def yamlLoad_def Let_def split: sum.splits option.splits)

theorem parse_auto_order_witness:
  "parseToolCallPayload demo_parsers call_x_text AutoFormat = Inr call_x \<and>
   parseToolCallPayload demo_parsers '' name: x '' AutoFormat = Inr (JObj [(''name'', JStr ''x'')]) \<and>
   parseToolCallPayload demo_parsers ''<name>x</name><arguments>a: b: c</arguments>'' AutoFormat
     = Inr (JObj [(''name'', JStr ''x''), (''arguments'', JStr ''a: b: c'')]) \<and>
   parseToolCallPayload demo_parsers ''{'' AutoFormat = Inl CouldNotParse"
proof -
  have a: "call_x_text = stripMarkdownCodeBlock (trim call_x_text)"
    and a1: "tryParseJson demo_parsers call_x_text = Inr call_x"
    by code_simp+
  have b: "''name: x'' = stripMarkdownCodeBlock (trim '' name: x '')"
    and b1: "tryParseJson demo_parsers ''name: x'' = Inl MalformedJson"
    and b2: "yaml_load demo_parsers ''name: x'' = Some (JObj [(''name'', JStr ''x'')])"
    by code_simp+
  let ?x = "''<name>x</name><arguments>a: b: c</arguments>''"
  have c: "?x = stripMarkdownCodeBlock (trim ?x)"
    and c1: "tryParseJson demo_parsers ?x = Inl MalformedJson"
    and c2: "yaml_load demo_parsers ?x = None"
    and c3: "parseXml demo_parsers ?x
               = Inr (JObj [(''name'', JStr ''x''), (''arguments'', JStr ''a: b: c'')])"
    by code_simp+
  have d: "''{'' = stripMarkdownCodeBlock (trim ''{'')"
    and d1: "tryParseJson demo_parsers ''{'' = Inl MalformedJson"
    and d2: "yaml_load demo_parsers ''{'' = None"
    and d3: "parseXml demo_parsers ''{'' = Inl NoNameInXml"
    by code_simp+
  from parse_auto_order [OF a, where P = demo_parsers and v = call_x] a1
  have 1: "parseToolCallPayload demo_parsers call_x_text AutoFormat = Inr call_x" by blast
  from parse_auto_order [OF b, where P = demo_parsers and e = MalformedJson
                                and v = "JObj [(''name'', JStr ''x'')]"] b1 b2
  have 2: "parseToolCallPayload demo_parsers '' name: x '' AutoFormat
             = Inr (JObj [(''name'', JStr ''x'')])"
    by blast
  from parse_auto_order [OF c, where P = demo_parsers and e = MalformedJson] c1 c2 c3
  have 3: "parseToolCallPayload demo_parsers ?x AutoFormat
             = Inr (JObj [(''name'', JStr ''x''), (''arguments'', JStr ''a: b: c'')])"
    by blast
  from parse_auto_order [OF d, where P = demo_parsers] d1 d2 d3
  have 4: "parseToolCallPayload demo_parsers ''{'' AutoFormat = Inl CouldNotParse"
    by blast
  from 1 2 3 4 show ?thesis by blast
qed

section \<open>Output without tool calls\<close>

text \<open>
  Claim C10. When the buffer detects no tool call in the model output,
  \<^verbatim>\<open>handleToolCallFromModelOutput\<close> appends the whole output as one assistant message
  and returns exactly one result: name \<^verbatim>\<open>none\<close>, empty arguments, the output as
  result.
\<close>

theorem no_call_plain_output:
  assumes "fst (push (decoders E) modelOutput (new_buffer proto (Some fmt))) = None"
  shows "handleToolCallFromModelOutput E proto fmt modelOutput (seenIds, st)
           = (Resolved [\<lparr>r_id = None, r_name = JStr ''none'', r_args = JObj [],
                         r_result = Some (JStr modelOutput), r_error = None,
                         r_raw = JStr modelOutput\<rparr>],
              seenIds, st\<lparr>history := history st @ [AssistantMsg modelOutput]\<rparr>)"
  using assms by (simp add: handleToolCallFromModelOutput_def none_result_def addMessage_def)

theorem no_call_plain_output_witness:
  "fst (push (decoders demo_env) ''hello'' (new_buffer AutoProtocol (Some AutoFormat))) = None \<and>
   handleToolCallFromModelOutput demo_env AutoProtocol AutoFormat ''hello'' ({}, session0)
     = (Resolved [\<lparr>r_id = None, r_name = JStr ''none'', r_args = JObj [],
                   r_result = Some (JStr ''hello''), r_error = None, r_raw = JStr ''hello''\<rparr>],
        {}, \<lparr>history = [AssistantMsg ''hello''], invocations = []\<rparr>)"
proof -
  have h: "fst (push (decoders demo_env) ''hello'' (new_buffer AutoProtocol (Some AutoFormat))) = None"
    by code_simp
  from no_call_plain_output [OF h, of "{}" session0] h show ?thesis
    by (simp add: session0_def)
qed

section \<open>Blocks whose payload does not decode\<close>

text \<open>
  Claim C6. A complete block whose payload fails to decode should stay in the raw
  buffer. Alone it does: the first push below keeps the block. Next to a block that
  decodes it does not: once one call is found, every complete block of every dialect is
  cut out of the buffer, the undecoded one included, and its text is in neither the
  buffer nor the detected calls.
\<close>

theorem push_drops_undecoded_block:
  "push demo_parsers ''A<tool_call>bad</tool_call>B'' (new_buffer ToolProtocol (Some Json))
     = (None, \<lparr>buffer = ''A<tool_call>bad</tool_call>B'', format = Json,
                protocol = ToolProtocol\<rparr>) \<and>
   push demo_parsers
        ''A<tool_call>bad</tool_call>B<tool_call>{\"name\":\"x\",\"arguments\":{}}</tool_call>C''
        (new_buffer ToolProtocol (Some Json))
     = (Some [call_x], \<lparr>buffer = ''ABC'', format = Json, protocol = ToolProtocol\<rparr>)"
  by code_simp

section \<open>Deduplication by call id\<close>

lemma truthy_callId_not_nullish: "truthy (callId c) \<Longrightarrow> \<not> nullish c"
  by (cases c) (simp_all add: callId_def js_or_def)

lemma handle_call_skip:
  "truthy v \<Longrightarrow> primitive v \<Longrightarrow> v \<in> S \<Longrightarrow> callId c = v
     \<Longrightarrow> handle_call E c (S, st) = ((S, st), [])"
  by (simp add: handle_call_def seen_has_def)

lemma handle_call_seen_mono:
  "handle_call E c (S, st) = ((S', st'), rs) \<Longrightarrow> S \<subseteq> S'"
  by (auto simp: handle_call_def split: if_splits prod.splits)

lemma handle_call_adds_id:
  "truthy (callId c) \<Longrightarrow> handle_call E c (S, st) = ((S', st'), rs) \<Longrightarrow> callId c \<in> S'"
  by (auto simp: handle_call_def seen_has_def split: if_splits prod.splits)

lemma handle_calls_skip:
  "truthy v \<Longrightarrow> primitive v \<Longrightarrow> v \<in> S \<Longrightarrow> callId c2 = v \<Longrightarrow>
   handle_calls E (cs @ c2 # cs3) (S, st) rs = handle_calls E (cs @ cs3) (S, st) rs"
proof (induction cs arbitrary: S st rs)
  case Nil
  then show ?case
    by (simp add: handle_call_skip truthy_callId_not_nullish)
next
  case (Cons c cs)
  show ?case
  proof (cases "nullish c")
    case True
    then show ?thesis by simp
  next
    case False
    obtain S' st' rs' where h: "handle_call E c (S, st) = ((S', st'), rs')"
      by (metis prod.exhaust)
    from handle_call_seen_mono [OF h] Cons.prems have "v \<in> S'" by blast
    with Cons.IH [of S' st' "rs @ rs'"] Cons.prems False h show ?thesis by simp
  qed
qed

text \<open>
  Claim C4, as the code has it. \<^verbatim>\<open>ChatSession.executeToolCalls\<close> keeps no set of
  seen ids and executes every call it is given. In \<^verbatim>\<open>handleToolCallFromModelOutput\<close>,
  which has the set, a call whose id (a non-empty string, or another truthy primitive)
  was carried by an earlier call of the episode is skipped: the run is the same as the
  run without that call: same messages, same handler invocations, same results.
\<close>

theorem duplicate_id_skipped:
  assumes "callId c2 = callId c1" and "truthy (callId c1)" and "primitive (callId c1)"
  shows "handle_calls E (cs1 @ c1 # cs2 @ c2 # cs3) (seenIds, st) results
           = handle_calls E (cs1 @ c1 # cs2 @ cs3) (seenIds, st) results"
proof (induction cs1 arbitrary: seenIds st results)
  case Nil
  obtain S' st' rs' where h: "handle_call E c1 (seenIds, st) = ((S', st'), rs')"
    by (metis prod.exhaust)
  from handle_call_adds_id [OF assms(2) h] have "callId c1 \<in> S'" .
  from handle_calls_skip [OF assms(2) assms(3) this assms(1), of E cs2 cs3 st' "results @ rs'"] h
  show ?case by simp
next
  case (Cons c cs)
  show ?case
  proof (cases "nullish c")
    case True
    then show ?thesis by simp
  next
    case False
    obtain S' st' rs' where h: "handle_call E c (seenIds, st) = ((S', st'), rs')"
      by (metis prod.exhaust)
    with Cons.IH [of S' st' "results @ rs'"] False show ?thesis by simp
  qed
qed

theorem duplicate_id_skipped_witness:
  "callId call_a = callId call_a \<and> truthy (callId call_a) \<and> primitive (callId call_a) \<and>
   handle_calls demo_env [call_a, call_a] ({}, session0) []
     = handle_calls demo_env [call_a] ({}, session0) [] \<and>
   snd (handle_calls demo_env [call_a] ({}, session0) [])
     = ({JStr ''a''}, \<lparr>history = [ToolMsg (JStr ''echo'') ''ok'' (JObj [])],
                        invocations = [(''echo'', JObj [])]\<rparr>)"
proof -
  have t: "truthy (callId call_a)" and p: "primitive (callId call_a)"
    by code_simp+
  have r: "snd (handle_calls demo_env [call_a] ({}, session0) [])
             = ({JStr ''a''}, \<lparr>history = [ToolMsg (JStr ''echo'') ''ok'' (JObj [])],
                                invocations = [(''echo'', JObj [])]\<rparr>)"
    by code_simp
  from duplicate_id_skipped [OF refl t p, of demo_env "[]" "[]" "[]" "{}" session0 "[]"] t p r
  show ?thesis by simp
qed

text \<open>The same two calls handed to \<^verbatim>\<open>ChatSession.executeToolCalls\<close>: both are executed.\<close>

theorem executeToolCalls_no_dedup:
  "executeToolCalls demo_chat_env [demo_call, demo_call] session0
     = \<lparr>history = [ToolMsg (JStr ''echo'') ''ok'' (JObj []),
                   ToolMsg (JStr ''echo'') ''ok'' (JObj [])],
        invocations = [(''echo'', JObj []), (''echo'', JObj [])]\<rparr>"
  by code_simp



section \<open>The message appended for an executed call\<close>



lemma legacy_call_history:
  "\<exists>n content args. history (legacy_call E c st) = history st @ [ToolMsg n content args]"
  by (auto simp: legacy_call_def legacy_error_def addMessage_def Let_def
           split: option.splits zod_outcome.splits settle.splits)




section \<open>The order of the messages of a round\<close>

lemma execute_call_history:
  "\<exists>m. history (execute_call E c st) = history st @ [m] \<and>
       ((\<exists>content. m = ToolMsg (JStr (tc_name c)) content (tc_arguments c)) \<or>
        (\<exists>err. m = AssistantMsg (''Error executing '' @ tc_name c @ '': '' @ err)))"
  by (auto simp: execute_call_def race_def executeTool_def addMessage_def
           split: option.splits zod_outcome.splits settle.splits prod.splits if_splits)

lemma executeToolCalls_history:
  "\<exists>msgs. history (executeToolCalls E cs st) = history st @ msgs \<and>
       list_all2 (\<lambda>c m. (\<exists>content. m = ToolMsg (JStr (tc_name c)) content (tc_arguments c)) \<or>
                        (\<exists>err. m = AssistantMsg (''Error executing '' @ tc_name c @ '': '' @ err)))
         cs msgs"
proof (induction cs arbitrary: st)
  case Nil
  then show ?case by simp
next
  case (Cons c cs)
  from execute_call_history [of E c st] obtain m where
    m: "history (execute_call E c st) = history st @ [m]"
       "(\<exists>content. m = ToolMsg (JStr (tc_name c)) content (tc_arguments c)) \<or>
        (\<exists>err. m = AssistantMsg (''Error executing '' @ tc_name c @ '': '' @ err))"
    by blast
  from Cons.IH [of "execute_call E c st"] obtain msgs where
    ms: "history (executeToolCalls E cs (execute_call E c st))
           = history (execute_call E c st) @ msgs"
        "list_all2 (\<lambda>c m. (\<exists>content. m = ToolMsg (JStr (tc_name c)) content (tc_arguments c)) \<or>
                        (\<exists>err. m = AssistantMsg (''Error executing '' @ tc_name c @ '': '' @ err)))
         cs msgs"
    by blast
  show ?case
    by (rule exI [of _ "m # msgs"]) (use m ms in simp)
qed

lemma processSegments_history:
  assumes "processSegments E segments st = (content, st')"
  shows "content = concat (map segment_text segments) \<and>
         (\<exists>msgs. history st' = history st
                     @ (if trim content \<noteq> [] then [AssistantMsg content] else []) @ msgs \<and>
            (if mcpService E = None then msgs = []
             else list_all2
                    (\<lambda>c m. (\<exists>content. m = ToolMsg (JStr (tc_name c)) content (tc_arguments c)) \<or>
                           (\<exists>err. m = AssistantMsg (''Error executing '' @ tc_name c @ '': '' @ err)))
                    (concat (map segment_calls segments)) msgs))"
proof -
  let ?c = "concat (map segment_text segments)"
  let ?calls = "concat (map segment_calls segments)"
  let ?st1 = "if trim ?c \<noteq> [] then addMessage (AssistantMsg ?c) st else st"
  have c: "content = ?c" using assms by (simp add: processSegments_def Let_def)
  have h1: "history ?st1 = history st @ (if trim ?c \<noteq> [] then [AssistantMsg ?c] else [])"
    by (simp add: addMessage_def)
  show ?thesis
  proof (cases "?calls \<noteq> [] \<and> mcpService E \<noteq> None")
    case True
    then have st': "st' = executeToolCalls E ?calls ?st1"
      using assms by (auto simp: processSegments_def Let_def split: if_splits)
    from executeToolCalls_history [of E ?calls ?st1] h1 True c st' show ?thesis
      by auto
  next
    case False
    then have st': "st' = ?st1"
      using assms by (auto simp add: processSegments_def Let_def)
    with h1 c False show ?thesis by auto
  qed
qed

lemma legacy_segments_combine:
  "legacy_segments E True segs (st, v, cb) = (Resolved (v', cb'), st') \<Longrightarrow>
     v' = v \<and> cb' = cb @ concat (map lsegment_text segs) \<and>
     (\<exists>msgs. history st' = history st @ msgs \<and>
        list_all2 (\<lambda>c m. \<exists>n content args. m = ToolMsg n content args)
          (concat (map lsegment_calls segs)) msgs)"
proof (induction segs arbitrary: st cb)
  case Nil
  then show ?case by simp
next
  case (Cons seg segs)
  show ?case
  proof (cases seg)
    case (LContent t)
    with Cons.prems Cons.IH [of st "cb @ t"] show ?thesis by simp
  next
    case (LToolCall c)
    with Cons.prems have nn: "\<not> nullish c"
      and r: "legacy_segments E True segs (legacy_call E c st, v, cb) = (Resolved (v', cb'), st')"
      by (auto split: if_splits)
    from legacy_call_history [of E c st] obtain n tx a where
      m: "history (legacy_call E c st) = history st @ [ToolMsg n tx a]" by blast
    from Cons.IH [OF r] obtain msgs where
      ms: "v' = v" "cb' = cb @ concat (map lsegment_text segs)"
          "history st' = history (legacy_call E c st) @ msgs"
          "list_all2 (\<lambda>c m. \<exists>n content args. m = ToolMsg n content args)
             (concat (map lsegment_calls segs)) msgs"
      by blast
    have "history st' = history st @ (ToolMsg n tx a # msgs) \<and>
          list_all2 (\<lambda>c m. \<exists>n content args. m = ToolMsg n content args)
            (concat (map lsegment_calls (seg # segs))) (ToolMsg n tx a # msgs)"
      using m ms LToolCall by simp
    with ms LToolCall show ?thesis by auto
  qed
qed

lemma legacy_round_combine:
  assumes "legacy_round E True segs st = (Resolved out, st')"
  shows "\<exists>msgs. history st' = history st @ msgs
                  @ (if trim (concat (map lsegment_text segs)) \<noteq> []
                     then [AssistantMsg (concat (map lsegment_text segs))] else []) \<and>
           list_all2 (\<lambda>c m. \<exists>n content args. m = ToolMsg n content args)
             (concat (map lsegment_calls segs)) msgs"
proof -
  from assms obtain v cb st1 where
    r: "legacy_segments E True segs (st, [], []) = (Resolved (v, cb), st1)"
    by (auto simp: legacy_round_def split: prod.splits completion.splits)
  from legacy_segments_combine [OF r] obtain msgs where
    ms: "cb = concat (map lsegment_text segs)" "history st1 = history st @ msgs"
        "list_all2 (\<lambda>c m. \<exists>n content args. m = ToolMsg n content args)
           (concat (map lsegment_calls segs)) msgs"
    by auto
  from assms r have "st' = (if trim cb \<noteq> [] then addMessage (AssistantMsg cb) st1 else st1)"
    by (auto simp: legacy_round_def split: if_splits)
  with ms show ?thesis by (auto simp: addMessage_def)
qed

lemma chat_single_turn_history:
  assumes "\<not> agenticMode E" and "completion E n (history st @ [UserMsg message]) = Inr segments"
  shows "\<exists>out st3 msgs. chat E message (st, n) = (Resolved out, st3, Suc n) \<and>
           history st3 = history st @ [UserMsg message]
                           @ (if trim out \<noteq> [] then [AssistantMsg out] else []) @ msgs \<and>
           (if mcpService E = None then msgs = []
            else list_all2
                   (\<lambda>c m. (\<exists>content. m = ToolMsg (JStr (tc_name c)) content (tc_arguments c)) \<or>
                          (\<exists>err. m = AssistantMsg (''Error executing '' @ tc_name c @ '': '' @ err)))
                   (concat (map segment_calls segments)) msgs)"
proof -
  let ?st1 = "addMessage (UserMsg message) st"
  obtain out st3 where p: "processSegments E segments ?st1 = (out, st3)"
    by (metis prod.exhaust)
  have h: "history ?st1 = history st @ [UserMsg message]" by (simp add: addMessage_def)
  with assms p have c: "chat E message (st, n) = (Resolved out, st3, Suc n)"
    by (simp add: chat_def singleTurnChat_def Let_def)
  from processSegments_history [OF p] h c show ?thesis by auto
qed

text \<open>
  Claim C3, as the code has it. In \<^verbatim>\<open>ChatSession.processSegments\<close> the combined
  content of the round is appended as an Assistant message when it is not blank (not
  empty after trimming white space), and before the round's tool calls are executed: the
  round adds to the history the assistant content, if not blank, and then one message
  for each tool call, in the order of the calls (none when there is no tool service).
  A single-turn \<^verbatim>\<open>chat\<close> so adds the user message, the assistant content and the
  messages of the tool calls, in this order. In \<^verbatim>\<open>LegacyChatSession.chat\<close> with
  combined content the order is the other one: the messages of the tool calls first,
  then the content, if not blank.
\<close>

theorem content_before_tool_messages:
  "(processSegments E segments st = (content, st')
      \<longrightarrow> content = concat (map segment_text segments) \<and>
          (\<exists>msgs. history st' = history st
                      @ (if trim content \<noteq> [] then [AssistantMsg content] else []) @ msgs \<and>
             (if mcpService E = None then msgs = []
              else list_all2
                     (\<lambda>c m. (\<exists>content. m = ToolMsg (JStr (tc_name c)) content (tc_arguments c)) \<or>
                            (\<exists>err. m = AssistantMsg (''Error executing '' @ tc_name c @ '': ''
                                                       @ err)))
                     (concat (map segment_calls segments)) msgs))) \<and>
   (\<not> agenticMode E \<and> completion E n (history st @ [UserMsg message]) = Inr segments
      \<longrightarrow> (\<exists>out st3 msgs. chat E message (st, n) = (Resolved out, st3, Suc n) \<and>
             history st3 = history st @ [UserMsg message]
                             @ (if trim out \<noteq> [] then [AssistantMsg out] else []) @ msgs \<and>
             (if mcpService E = None then msgs = []
              else list_all2
                     (\<lambda>c m. (\<exists>content. m = ToolMsg (JStr (tc_name c)) content (tc_arguments c)) \<or>
                            (\<exists>err. m = AssistantMsg (''Error executing '' @ tc_name c @ '': ''
                                                       @ err)))
                     (concat (map segment_calls segments)) msgs))) \<and>
   (legacy_round H True lsegments st = (Resolved out, st'')
      \<longrightarrow> (\<exists>msgs. history st'' = history st @ msgs
                      @ (if trim (concat (map lsegment_text lsegments)) \<noteq> []
                         then [AssistantMsg (concat (map lsegment_text lsegments))] else []) \<and>
             list_all2 (\<lambda>c m. \<exists>n content args. m = ToolMsg n content args)
               (concat (map lsegment_calls lsegments)) msgs))"
  using processSegments_history [of E segments st content st']
        chat_single_turn_history [of E n st message segments]
        legacy_round_combine [of H lsegments st out st'']
  by blast

theorem content_before_tool_messages_witness:
  "processSegments demo_chat_env [Content ''a'', ToolCallSeg demo_call] session0
     = (''a'', \<lparr>history = [AssistantMsg ''a'', ToolMsg (JStr ''echo'') ''ok'' (JObj [])],
               invocations = [(''echo'', JObj [])]\<rparr>) \<and>
   chat demo_single_env ''q'' (session0, 0)
     = (Resolved ''a'',
        \<lparr>history = [UserMsg ''q'', AssistantMsg ''a'', ToolMsg (JStr ''echo'') ''ok'' (JObj [])],
          invocations = [(''echo'', JObj [])]\<rparr>, 1) \<and>
   legacy_round demo_env True [LContent ''a'', LToolCall call_a] session0
     = (Resolved ''a'', \<lparr>history = [ToolMsg (JStr ''echo'') ''ok'' (JObj []), AssistantMsg ''a''],
                        invocations = [(''echo'', JObj [])]\<rparr>) \<and>
   (\<exists>msgs. [AssistantMsg ''a'', ToolMsg (JStr ''echo'') ''ok'' (JObj [])]
             = [AssistantMsg ''a''] @ msgs \<and> length msgs = 1) \<and>
   (\<exists>msgs. [UserMsg ''q'', AssistantMsg ''a'', ToolMsg (JStr ''echo'') ''ok'' (JObj [])]
             = [UserMsg ''q''] @ [AssistantMsg ''a''] @ msgs \<and> length msgs = 1) \<and>
   (\<exists>msgs. [ToolMsg (JStr ''echo'') ''ok'' (JObj []), AssistantMsg ''a'']
             = msgs @ [AssistantMsg ''a''] \<and> length msgs = 1)"
proof -
  let ?segs = "[Content ''a'', ToolCallSeg demo_call]"
  let ?h1 = "[AssistantMsg ''a'', ToolMsg (JStr ''echo'') ''ok'' (JObj [])]"
  let ?h2 = "[ToolMsg (JStr ''echo'') ''ok'' (JObj []), AssistantMsg ''a'']"
  let ?h3 = "[UserMsg ''q'', AssistantMsg ''a'', ToolMsg (JStr ''echo'') ''ok'' (JObj [])]"
  let ?inv = "[(''echo'', JObj [])]"
  have p: "processSegments demo_chat_env ?segs session0
             = (''a'', \<lparr>history = ?h1, invocations = ?inv\<rparr>)"
    and l: "legacy_round demo_env True [LContent ''a'', LToolCall call_a] session0
             = (Resolved ''a'', \<lparr>history = ?h2, invocations = ?inv\<rparr>)"
    and c: "chat demo_single_env ''q'' (session0, 0)
             = (Resolved ''a'', \<lparr>history = ?h3, invocations = ?inv\<rparr>, 1)"
    by code_simp+
  have t: "trim ''a'' \<noteq> []" by code_simp
  have svc: "mcpService demo_chat_env \<noteq> None" "mcpService demo_single_env \<noteq> None"
    by (simp_all add: demo_chat_env_def demo_single_env_def)
  have m: "\<not> agenticMode demo_single_env"
    and k: "completion demo_single_env 0 (history session0 @ [UserMsg ''q'']) = Inr ?segs"
    by (simp_all add: demo_chat_env_def demo_single_env_def)
  from content_before_tool_messages
         [where E = demo_chat_env and segments = ?segs
            and st = session0 and content = "''a''"
            and st' = "\<lparr>history = ?h1, invocations = ?inv\<rparr>"
            and H = demo_env and lsegments = "[LContent ''a'', LToolCall call_a]"
            and out = "''a''" and st'' = "\<lparr>history = ?h2, invocations = ?inv\<rparr>"]
       p l t svc
  have a: "(\<exists>msgs. ?h1 = [AssistantMsg ''a''] @ msgs \<and> length msgs = 1) \<and>
           (\<exists>msgs. ?h2 = msgs @ [AssistantMsg ''a''] \<and> length msgs = 1)"
    by (auto simp: session0_def list_all2_Cons1)
  from content_before_tool_messages
         [where E = demo_single_env and segments = ?segs and st = session0 and n = 0
            and message = "''q''"]
       m k c t svc
  have b: "\<exists>msgs. ?h3 = [UserMsg ''q''] @ [AssistantMsg ''a''] @ msgs \<and> length msgs = 1"
    by (auto simp: session0_def list_all2_Cons1)
  from p c l a b show ?thesis by blast
qed

text \<open>
  Content that is not empty but blank appends no message; and the legacy session
  appends the combined content after the message of the tool call.
\<close>

theorem content_order_counterexample:
  "processSegments demo_chat_env [Content ''  ''] session0 = (''  '', session0) \<and>
   legacy_round demo_env True [LContent ''hi'', LToolCall call_a] session0
     = (Resolved ''hi'',
        \<lparr>history = [ToolMsg (JStr ''echo'') ''ok'' (JObj []), AssistantMsg ''hi''],
          invocations = [(''echo'', JObj [])]\<rparr>)"
  by code_simp

section \<open>The agentic loop\<close>

lemma agentic_loop_all_calls:
  assumes "\<forall>n h. \<exists>segs. completion E n h = Inr segs \<and> hasToolCalls segs"
  shows "fst (agentic_loop E i (st, n)) = Resolved [] \<and>
         snd (snd (agentic_loop E i (st, n))) = n + nat (iteration_limit E - i)"
proof (induction "nat (iteration_limit E - i)" arbitrary: i st n)
  case 0
  then have "\<not> i < iteration_limit E" by simp
  then show ?case by (simp add: agentic_loop.simps)
next
  case (Suc k)
  then have lt: "i < iteration_limit E" by linarith
  from assms obtain segs where
    c: "completion E n (history st) = Inr segs" "hasToolCalls segs" by blast
  obtain res st' where p: "processSegments E segs st = (res, st')" by (metis prod.exhaust)
  have step: "agentic_loop E i (st, n) = agentic_loop E (i + 1) (st', Suc n)"
    using lt c p by (subst agentic_loop.simps) simp
  from Suc.hyps(2) have "k = nat (iteration_limit E - (i + 1))" by linarith
  from Suc.hyps(1) [OF this, of st' "Suc n"] step lt show ?case
    by (simp add: nat_diff_distrib')
qed

text \<open>
  Claim C5, as the code has it. With \<^verbatim>\<open>maxAgenticIterations = N\<close>, when every round
  contains a tool call, the loop invokes the model exactly \<open>N\<close> times (5 times for
  \<open>N = 0\<close>, which falls back to the default, and not at all for a negative \<open>N\<close>), then
  stops and returns the empty string: \<^verbatim>\<open>finalResponse\<close> is assigned only in a round
  without tool calls. Such a round stops the loop at once, and its content is returned.
  The state is the session and the number of model invocations.
\<close>

theorem agentic_iteration_cap:
  "(maxAgenticIterations E = Some N \<and>
    (\<forall>n h. \<exists>segs. completion E n h = Inr segs \<and> hasToolCalls segs)
      \<longrightarrow> fst (agenticChat E (st, k)) = Resolved [] \<and>
          snd (snd (agenticChat E (st, k))) = k + (if N = 0 then 5 else nat N)) \<and>
   (i < iteration_limit E \<and> completion E k (history st) = Inr segs \<and> \<not> hasToolCalls segs
      \<longrightarrow> agentic_loop E i (st, k)
            = (Resolved (concat (map segment_text segs)), snd (processSegments E segs st), Suc k))"
proof (intro conjI impI)
  assume a: "maxAgenticIterations E = Some N \<and>
    (\<forall>n h. \<exists>segs. completion E n h = Inr segs \<and> hasToolCalls segs)"
  then have lim: "iteration_limit E = (if N = 0 then 5 else N)"
    by (simp add: iteration_limit_def)
  from a agentic_loop_all_calls [of E 0 st k]
  have r: "fst (agentic_loop E 0 (st, k)) = Resolved []"
      "snd (snd (agentic_loop E 0 (st, k))) = k + nat (iteration_limit E - 0)"
    by blast+
  from r(1) show "fst (agenticChat E (st, k)) = Resolved []" by (simp add: agenticChat_def)
  from r(2) lim show "snd (snd (agenticChat E (st, k))) = k + (if N = 0 then 5 else nat N)"
    by (simp add: agenticChat_def)
next
  assume a: "i < iteration_limit E \<and> completion E k (history st) = Inr segs \<and> \<not> hasToolCalls segs"
  then show "agentic_loop E i (st, k)
            = (Resolved (concat (map segment_text segs)), snd (processSegments E segs st), Suc k)"
    by (subst agentic_loop.simps) (simp add: processSegments_def Let_def split: prod.splits)
qed

theorem agentic_iteration_cap_witness:
  "maxAgenticIterations demo_chat_env = Some 2 \<and>
   fst (agenticChat demo_chat_env (session0, 0)) = Resolved [] \<and>
   snd (snd (agenticChat demo_chat_env (session0, 0))) = 2 \<and>
   0 < iteration_limit demo_plain_env \<and>
   completion demo_plain_env 0 (history session0) = Inr [Content ''done''] \<and>
   \<not> hasToolCalls [Content ''done''] \<and>
   agentic_loop demo_plain_env 0 (session0, 0)
     = (Resolved ''done'', \<lparr>history = [AssistantMsg ''done''], invocations = []\<rparr>, 1)"
proof -
  have m: "maxAgenticIterations demo_chat_env = Some 2"
    by (simp add: demo_chat_env_def)
  have all: "\<forall>n h. \<exists>segs. completion demo_chat_env n h = Inr segs \<and> hasToolCalls segs"
    by (simp add: demo_chat_env_def hasToolCalls_def)
  have lim: "0 < iteration_limit demo_plain_env"
    by (simp add: iteration_limit_def demo_plain_env_def demo_chat_env_def)
  have c: "completion demo_plain_env 0 (history session0) = Inr [Content ''done'']"
    by (simp add: demo_plain_env_def)
  have n: "\<not> hasToolCalls [Content ''done'']"
    by (simp add: hasToolCalls_def)
  have p: "snd (processSegments demo_plain_env [Content ''done''] session0)
             = \<lparr>history = [AssistantMsg ''done''], invocations = []\<rparr>"
    by code_simp
  from agentic_iteration_cap [where E = demo_chat_env and N = 2 and st = session0 and k = 0
                                 and i = 1 and segs = "[]"] m all
  have a: "fst (agenticChat demo_chat_env (session0, 0)) = Resolved [] \<and>
           snd (snd (agenticChat demo_chat_env (session0, 0))) = 2"
    by simp
  from agentic_iteration_cap [where E = demo_plain_env and N = 2 and st = session0 and k = 0
                                 and i = 0 and segs = "[Content ''done'']"] lim c n p
  have b: "agentic_loop demo_plain_env 0 (session0, 0)
             = (Resolved ''done'', \<lparr>history = [AssistantMsg ''done''], invocations = []\<rparr>, 1)"
    by simp
  from m a lim c n b show ?thesis by blast
qed

text \<open>
  Two rounds, each with the content \<open>a\<close> and a tool call, and a limit of two: the model
  is invoked twice and the result is the empty string, not the content of the last
  round.
\<close>

theorem agentic_cap_returns_empty:
  "agenticChat demo_chat_env (session0, 0)
     = (Resolved [],
        \<lparr>history = [AssistantMsg ''a'', ToolMsg (JStr ''echo'') ''ok'' (JObj []),
                    AssistantMsg ''a'', ToolMsg (JStr ''echo'') ''ok'' (JObj [])],
          invocations = [(''echo'', JObj []), (''echo'', JObj [])]\<rparr>, 2) \<and>
   fst (agenticChat demo_chat_env (session0, 0)) \<noteq> Resolved ''a''"
  by code_simp

section \<open>Visible content\<close>

lemma at_open_tag_iff: "at_open_tag s \<longleftrightarrow> (\<exists>t \<in> set open_tags. prefix t s)"
  by (simp add: at_open_tag_def open_tags_def dialects_def)

lemma open_tag_in_open_tags: "open_tag d \<in> set open_tags"
  by (cases d) (simp_all add: open_tags_def dialects_def)

lemma open_tags_nonempty: "t \<in> set open_tags \<Longrightarrow> t \<noteq> []"
  by (auto simp: open_tags_def dialects_def)

lemma visible_prefix_is_prefix: "prefix (visible_prefix s) s"
  by (induction s) auto

lemma visible_prefix_stops_at_tag:
  "visible_prefix s \<noteq> s \<Longrightarrow> at_open_tag (drop (length (visible_prefix s)) s)"
  by (induction s) (auto split: if_splits)

lemma visible_prefix_no_tag:
  assumes "t \<in> set open_tags"
  shows "\<not> sublist t (visible_prefix s)"
proof (induction s)
  case Nil
  with assms show ?case by (auto dest: open_tags_nonempty)
next
  case (Cons c cs)
  show ?case
  proof (cases "at_open_tag (c # cs)")
    case True
    with assms show ?thesis by (auto dest: open_tags_nonempty)
  next
    case False
    have "\<not> prefix t (c # visible_prefix cs)"
    proof
      assume "prefix t (c # visible_prefix cs)"
      moreover have "prefix (c # visible_prefix cs) (c # cs)"
        using visible_prefix_is_prefix [of cs] by simp
      ultimately have "prefix t (c # cs)" by (rule prefix_order.trans)
      with assms False show False by (auto simp: at_open_tag_iff)
    qed
    with Cons.IH False show ?thesis by (simp add: sublist_Cons_right)
  qed
qed

lemma settled_tl: "settled (c # v) \<Longrightarrow> settled v"
  by (auto simp: settled_def partial_tag_pending_def sublist_Cons_right)

lemma settled_no_prefix:
  assumes "settled (c # v)" and "t \<in> set open_tags"
  shows "\<not> prefix t ((c # v) @ r)"
proof
  assume "prefix t ((c # v) @ r)"
  then consider "prefix t (c # v)" | w where "t = (c # v) @ w" "prefix w r"
    unfolding prefix_append by blast
  then show False
  proof cases
    case 1
    then have "sublist t (c # v)" by (rule prefix_imp_sublist)
    with assms show False by (simp add: settled_def)
  next
    case 2
    show False
    proof (cases "w = []")
      case True
      with 2 have "sublist t (c # v)" by simp
      with assms show False by (simp add: settled_def)
    next
      case False
      with 2 have "strict_prefix (c # v) t" by (simp add: strict_prefix_def)
      moreover have "c # v \<in> set (suffixes (c # v))" by (simp add: in_set_suffixes)
      ultimately have "partial_tag_pending (c # v)"
        using assms(2) by (auto simp: partial_tag_pending_def)
      with assms show False by (simp add: settled_def)
    qed
  qed
qed

lemma visible_prefix_settled: "settled v \<Longrightarrow> visible_prefix (v @ r) = v @ visible_prefix r"
proof (induction v)
  case Nil
  then show ?case by simp
next
  case (Cons c v)
  from settled_no_prefix [OF Cons.prems] have "\<not> at_open_tag ((c # v) @ r)"
    by (auto simp: at_open_tag_iff)
  with Cons.IH [OF settled_tl [OF Cons.prems]] show ?case by simp
qed

lemma find_tag_settled:
  "settled v \<Longrightarrow> t \<in> set open_tags \<Longrightarrow>
   find_tag t (v @ r) = (case find_tag t r of None \<Rightarrow> None | Some (pre, post) \<Rightarrow> Some (v @ pre, post))"
proof (induction v)
  case Nil
  then show ?case by (simp split: option.splits)
next
  case (Cons c v)
  from settled_no_prefix [OF Cons.prems] have "\<not> prefix t (c # v @ r)" by simp
  with Cons.IH [OF settled_tl [OF Cons.prems(1)] Cons.prems(2)] show ?case
    by (simp split: option.splits)
qed

lemma remove_blocks_settled:
  assumes "settled v"
  shows "\<exists>r'. remove_blocks d (v @ r) = v @ r'"
proof (cases "exec_block d (v @ r)")
  case None
  then show ?thesis by (simp add: remove_blocks.simps)
next
  case (Some x)
  then obtain pre inner post where x: "exec_block d (v @ r) = Some (pre, inner, post)"
    by (cases x) auto
  then obtain pre' where "pre = v @ pre'"
    using find_tag_settled [OF assms open_tag_in_open_tags, of d r]
    by (auto simp: exec_block_def match_block_def split: option.splits)
  with x show ?thesis by (simp add: remove_blocks.simps)
qed

lemma remove_all_blocks_settled:
  assumes "settled v"
  shows "\<exists>r'. remove_all_blocks (v @ r) = v @ r'"
  unfolding remove_all_blocks_def
  by (metis remove_blocks_settled [OF assms])

lemma push_buffer_cases:
  "buffer (snd (push P chunk b)) = buffer b @ chunk \<or>
   buffer (snd (push P chunk b)) = remove_all_blocks (buffer b @ chunk)"
  by (simp add: push_def Let_def)

text \<open>
  Claim C1, as the code has it. The visible content is the raw buffer up to its first
  complete open tag (the whole buffer when there is none): it holds no complete open
  tag and nothing that follows one. The characters of a partially received open tag are
  visible until the tag is complete. From one push to the next the visible content is
  extended, so its length does not decrease, unless it ended in a partial open tag.
\<close>

theorem visible_content_growth:
  "(\<not> partial_tag_pending (getVisibleContent b)
      \<longrightarrow> prefix (getVisibleContent b) (getVisibleContent (snd (push P chunk b)))) \<and>
   (\<forall>t \<in> set open_tags. \<not> sublist t (getVisibleContent (snd (push P chunk b)))) \<and>
   prefix (getVisibleContent (snd (push P chunk b))) (buffer (snd (push P chunk b))) \<and>
   (getVisibleContent (snd (push P chunk b)) \<noteq> buffer (snd (push P chunk b))
      \<longrightarrow> at_open_tag (drop (length (getVisibleContent (snd (push P chunk b))))
                          (buffer (snd (push P chunk b)))))"
proof (intro conjI impI ballI)
  assume np: "\<not> partial_tag_pending (getVisibleContent b)"
  let ?v = "visible_prefix (buffer b)"
  have s: "settled ?v"
    using np visible_prefix_no_tag [of _ "buffer b"]
    by (auto simp: settled_def getVisibleContent_def)
  obtain rest where rest: "buffer b = ?v @ rest"
    using visible_prefix_is_prefix [of "buffer b"] by (auto simp: prefix_def)
  then have "buffer b @ chunk = ?v @ (rest @ chunk)" by simp
  with remove_all_blocks_settled [OF s, of "rest @ chunk"] push_buffer_cases [of P chunk b]
  obtain r' where "buffer (snd (push P chunk b)) = ?v @ r'"
    by metis
  with visible_prefix_settled [OF s, of r']
  show "prefix (getVisibleContent b) (getVisibleContent (snd (push P chunk b)))"
    by (simp add: getVisibleContent_def)
next
  fix t assume "t \<in> set open_tags"
  then show "\<not> sublist t (getVisibleContent (snd (push P chunk b)))"
    by (simp add: getVisibleContent_def visible_prefix_no_tag)
next
  show "prefix (getVisibleContent (snd (push P chunk b))) (buffer (snd (push P chunk b)))"
    by (simp add: getVisibleContent_def visible_prefix_is_prefix)
next
  assume "getVisibleContent (snd (push P chunk b)) \<noteq> buffer (snd (push P chunk b))"
  then show "at_open_tag (drop (length (getVisibleContent (snd (push P chunk b))))
                          (buffer (snd (push P chunk b))))"
    by (simp add: getVisibleContent_def visible_prefix_stops_at_tag)
qed


theorem visible_content_growth_witness:
  "\<not> partial_tag_pending (getVisibleContent \<lparr>buffer = ''Hi '', format = Json, protocol = ToolProtocol\<rparr>) \<and>
   getVisibleContent (snd (push demo_parsers ''<tool_call>{''
                        \<lparr>buffer = ''Hi '', format = Json, protocol = ToolProtocol\<rparr>)) = ''Hi '' \<and>
   buffer (snd (push demo_parsers ''<tool_call>{''
                  \<lparr>buffer = ''Hi '', format = Json, protocol = ToolProtocol\<rparr>)) = ''Hi <tool_call>{'' \<and>
   prefix (getVisibleContent \<lparr>buffer = ''Hi '', format = Json, protocol = ToolProtocol\<rparr>)
          (getVisibleContent (snd (push demo_parsers ''<tool_call>{''
                               \<lparr>buffer = ''Hi '', format = Json, protocol = ToolProtocol\<rparr>))) \<and>
   at_open_tag (drop 3 ''Hi <tool_call>{'')"
proof -
  let ?b = "\<lparr>buffer = ''Hi '', format = Json, protocol = ToolProtocol\<rparr>"
  have n: "\<not> partial_tag_pending (getVisibleContent ?b)"
    by code_simp
  have v: "getVisibleContent (snd (push demo_parsers ''<tool_call>{'' ?b)) = ''Hi ''"
    and r: "buffer (snd (push demo_parsers ''<tool_call>{'' ?b)) = ''Hi <tool_call>{''"
    by code_simp+
  from visible_content_growth [of ?b demo_parsers "''<tool_call>{''"] n v r
  show ?thesis by simp
qed

text \<open>
  The text \<open>Hello\<close> and a tag that arrives in two pieces: the first piece of the tag is
  visible after the first push, and the visible content is shorter after the second.
\<close>

theorem visible_content_shrinks:
  "getVisibleContent (snd (push demo_parsers ''Hello <tool_'' (new_buffer ToolProtocol (Some Json))))
     = ''Hello <tool_'' \<and>
   getVisibleContent
     (snd (push demo_parsers ''call>''
             (snd (push demo_parsers ''Hello <tool_'' (new_buffer ToolProtocol (Some Json))))))
     = ''Hello '' \<and>
   length (getVisibleContent
     (snd (push demo_parsers ''call>''
             (snd (push demo_parsers ''Hello <tool_'' (new_buffer ToolProtocol (Some Json)))))))
     < length (getVisibleContent
         (snd (push demo_parsers ''Hello <tool_'' (new_buffer ToolProtocol (Some Json)))))"
  by code_simp

section \<open>One block split across pushes\<close>

lemma tag_shape: "t \<in> set all_tags \<Longrightarrow> \<exists>t'. t = CHR ''<'' # t' \<and> CHR ''<'' \<notin> set t'"
  by (auto simp: all_tags_def open_tags_def dialects_def)

lemma tag_prefix_close: "t \<in> set all_tags \<Longrightarrow> prefix t ''</tool_call>'' \<Longrightarrow> t = ''</tool_call>''"
  by (auto simp: all_tags_def open_tags_def dialects_def)

lemma tag_prefix_open: "t \<in> set all_tags \<Longrightarrow> prefix t ''<tool_call>'' \<Longrightarrow> t = ''<tool_call>''"
  by (auto simp: all_tags_def open_tags_def dialects_def)

lemma tag_not_at_open:
  "t \<in> set all_tags \<Longrightarrow> t \<noteq> ''<tool_call>'' \<Longrightarrow> \<not> prefix t (''<tool_call>'' @ q)"
  by (auto simp: all_tags_def open_tags_def dialects_def)

lemma find_tag_None_iff: "find_tag t s = None \<longleftrightarrow> \<not> sublist t s"
  by (induction s) (auto simp: sublist_Cons_right split: option.splits)

text \<open>A tag is not found in a text without its first character.\<close>

lemma find_tag_skip:
  "t = x # t' \<Longrightarrow> x \<notin> set a \<Longrightarrow>
   find_tag t (a @ q) = (case find_tag t q of None \<Rightarrow> None | Some (pre, post) \<Rightarrow> Some (a @ pre, post))"
  by (induction a) (auto split: option.splits)

lemma find_tag_absent: "t = x # t' \<Longrightarrow> x \<notin> set a \<Longrightarrow> find_tag t a = None"
  using find_tag_skip [of t x t' a "[]"] by simp

text \<open>A beginning of a tag holds the character \<open><\<close> at its start only.\<close>

lemma tag_prefix_shape:
  assumes "prefix w (CHR ''<'' # u)" and "CHR ''<'' \<notin> set u"
  shows "w = [] \<or> (\<exists>w'. w = CHR ''<'' # w' \<and> CHR ''<'' \<notin> set w')"
proof (cases w)
  case Nil
  then show ?thesis by simp
next
  case (Cons c w')
  with assms(1) have "c = CHR ''<''" "prefix w' u" by simp_all
  with assms(2) Cons show ?thesis by (auto dest: set_mono_prefix)
qed

lemma find_tag_in_beginning:
  assumes "t \<in> set all_tags" and "prefix r (CHR ''<'' # u)" and "CHR ''<'' \<notin> set u"
  shows "find_tag t r = (if prefix t r then Some ([], drop (length t) r) else None)"
proof -
  from tag_shape [OF assms(1)] obtain t' where t: "t = CHR ''<'' # t'" by blast
  from tag_prefix_shape [OF assms(2,3)] show ?thesis
  proof
    assume "r = []"
    with t show ?thesis by simp
  next
    assume "\<exists>w'. r = CHR ''<'' # w' \<and> CHR ''<'' \<notin> set w'"
    then obtain r' where r: "r = CHR ''<'' # r'" "CHR ''<'' \<notin> set r'" by blast
    from find_tag_absent [OF t r(2)] r show ?thesis by simp
  qed
qed

lemma find_tag_close_prefix:
  assumes "t \<in> set all_tags" and "prefix r ''</tool_call>''"
  shows "find_tag t r = (if t = ''</tool_call>'' \<and> r = ''</tool_call>'' then Some ([], []) else None)"
proof -
  have f: "find_tag t r = (if prefix t r then Some ([], drop (length t) r) else None)"
    by (rule find_tag_in_beginning [OF assms(1), of r "''/tool_call>''"]) (use assms(2) in simp_all)
  show ?thesis
  proof (cases "prefix t r")
    case True
    from True assms(2) have "prefix t ''</tool_call>''" by (rule prefix_order.trans)
    from tag_prefix_close [OF assms(1) this] have t: "t = ''</tool_call>''" .
    with True assms(2) have "r = ''</tool_call>''" by (simp add: prefix_order.antisym)
    with t f show ?thesis by simp
  next
    case False
    then have "\<not> (t = ''</tool_call>'' \<and> r = ''</tool_call>'')" by auto
    with f False show ?thesis by simp
  qed
qed

lemma find_tag_open_beginning:
  assumes "t \<in> set all_tags" and "strict_prefix p ''<tool_call>''"
  shows "find_tag t p = None"
proof -
  from assms(2) have pp: "prefix p ''<tool_call>''" by (simp add: strict_prefix_def)
  have f: "find_tag t p = (if prefix t p then Some ([], drop (length t) p) else None)"
    by (rule find_tag_in_beginning [OF assms(1), of p "''tool_call>''"]) (use pp in simp_all)
  have "\<not> prefix t p"
  proof
    assume tp: "prefix t p"
    from tp pp have "prefix t ''<tool_call>''" by (rule prefix_order.trans)
    from tag_prefix_open [OF assms(1) this] tp assms(2) show False
      by (auto simp: strict_prefix_def dest: prefix_order.antisym)
  qed
  with f show ?thesis by simp
qed

text \<open>A text without tags, followed by a beginning of the close tag: no tag starts in the text.\<close>

lemma find_tag_payload:
  assumes "t \<in> set all_tags" and "prefix r ''</tool_call>''"
  shows "\<not> sublist t pl \<Longrightarrow>
         find_tag t (pl @ r)
           = (case find_tag t r of None \<Rightarrow> None | Some (pre, post) \<Rightarrow> Some (pl @ pre, post))"
proof (induction pl)
  case Nil
  then show ?case by (simp split: option.splits)
next
  case (Cons y ys)
  from tag_shape [OF assms(1)] obtain t' where t: "t = CHR ''<'' # t'" "CHR ''<'' \<notin> set t'"
    by blast
  have np: "\<not> prefix t ((y # ys) @ r)"
  proof
    assume "prefix t ((y # ys) @ r)"
    then consider "prefix t (y # ys)" | w where "t = (y # ys) @ w" "prefix w r"
      unfolding prefix_append by blast
    then show False
    proof cases
      case 1
      then have "sublist t (y # ys)" by (rule prefix_imp_sublist)
      with Cons.prems show False by simp
    next
      case 2
      show False
      proof (cases "w = []")
        case True
        with 2 Cons.prems show False by simp
      next
        case False
        from 2(2) assms(2) have "prefix w ''</tool_call>''" by (rule prefix_order.trans)
        with False have "CHR ''<'' \<in> set w" by (cases w) auto
        with 2(1) t show False by auto
      qed
    qed
  qed
  from Cons.prems have "\<not> sublist t ys" by (simp add: sublist_Cons_right)
  from Cons.IH [OF this] np show ?case by (simp split: option.splits)
qed

lemma find_tag_in_block:
  assumes "t \<in> set all_tags" and "prefix r ''</tool_call>''" and "\<not> sublist t pl"
  shows "find_tag t (pl @ r)
           = (if t = ''</tool_call>'' \<and> r = ''</tool_call>'' then Some (pl, []) else None)"
  using find_tag_payload [OF assms] find_tag_close_prefix [OF assms(1,2)] by simp


lemma find_tag_at_start: "t \<noteq> [] \<Longrightarrow> find_tag t (t @ q) = Some ([], q)"
  by (cases t) simp_all

lemma find_tag_after_open:
  assumes "t \<in> set all_tags" and "t \<noteq> ''<tool_call>''"
  shows "find_tag t (''<tool_call>'' @ q)
           = (case find_tag t q of None \<Rightarrow> None | Some (pre, post) \<Rightarrow> Some (''<tool_call>'' @ pre, post))"
proof -
  from tag_shape [OF assms(1)] obtain t' where t: "t = CHR ''<'' # t'" by blast
  have "find_tag t (''tool_call>'' @ q)
          = (case find_tag t q of None \<Rightarrow> None | Some (pre, post) \<Rightarrow> Some (''tool_call>'' @ pre, post))"
    by (rule find_tag_skip [OF t]) simp
  moreover have "\<not> prefix t (CHR ''<'' # ''tool_call>'' @ q)"
    using tag_not_at_open [OF assms, of q] by simp
  ultimately show ?thesis by (simp split: option.splits)
qed

lemma open_tag_in_all_tags: "open_tag d \<in> set all_tags"
  by (cases d) (simp_all add: all_tags_def open_tags_def dialects_def)

lemma close_tag_in_all_tags: "close_tag d \<in> set all_tags"
  by (cases d) (simp_all add: all_tags_def open_tags_def dialects_def)

lemma exec_block_partial:
  assumes "\<forall>t \<in> set all_tags. \<not> sublist t pl" and "prefix r ''</tool_call>''"
    and "r \<noteq> ''</tool_call>''"
  shows "exec_block d (''<tool_call>'' @ pl @ r) = None"
proof (cases "d = ToolCall")
  case True
  have "find_tag ''<tool_call>'' (''<tool_call>'' @ pl @ r) = Some ([], pl @ r)"
    by (rule find_tag_at_start) simp
  moreover have "find_tag ''</tool_call>'' (pl @ r) = None"
    using find_tag_in_block [OF close_tag_in_all_tags [of ToolCall] assms(2), of pl] assms(1,3)
          close_tag_in_all_tags [of ToolCall]
    by simp
  ultimately show ?thesis using True by (simp add: exec_block_def match_block_def)
next
  case False
  then have ne: "open_tag d \<noteq> ''<tool_call>''" "open_tag d \<noteq> ''</tool_call>''"
    by (cases d; simp)+
  have "find_tag (open_tag d) (pl @ r) = None"
    using find_tag_in_block [OF open_tag_in_all_tags [of d] assms(2), of pl] assms(1) ne
          open_tag_in_all_tags [of d]
    by simp
  with find_tag_after_open [OF open_tag_in_all_tags ne(1), of "pl @ r"]
  show ?thesis by (simp add: exec_block_def match_block_def)
qed

lemma exec_block_short:
  assumes "strict_prefix p ''<tool_call>''"
  shows "exec_block d p = None"
  using find_tag_open_beginning [OF open_tag_in_all_tags assms, of d]
  by (simp add: exec_block_def match_block_def)

lemma exec_block_full:
  assumes "\<forall>t \<in> set all_tags. \<not> sublist t payload"
  shows "exec_block d (''<tool_call>'' @ payload @ ''</tool_call>'')
           = (if d = ToolCall then Some ([], payload, []) else None)"
proof (cases "d = ToolCall")
  case True
  have "find_tag ''<tool_call>'' (''<tool_call>'' @ payload @ ''</tool_call>'')
          = Some ([], payload @ ''</tool_call>'')"
    by (rule find_tag_at_start) simp
  moreover have "find_tag ''</tool_call>'' (payload @ ''</tool_call>'') = Some (payload, [])"
    using find_tag_in_block [OF close_tag_in_all_tags [of ToolCall], of "''</tool_call>''" payload]
          assms close_tag_in_all_tags [of ToolCall]
    by simp
  ultimately show ?thesis using True by (simp add: exec_block_def match_block_def)
next
  case False
  then have ne: "open_tag d \<noteq> ''<tool_call>''" "open_tag d \<noteq> ''</tool_call>''"
    by (cases d; simp)+
  have "find_tag (open_tag d) (payload @ ''</tool_call>'') = None"
    using find_tag_in_block [OF open_tag_in_all_tags [of d], of "''</tool_call>''" payload] assms ne
          open_tag_in_all_tags [of d]
    by simp
  with find_tag_after_open [OF open_tag_in_all_tags ne(1), of "payload @ ''</tool_call>''"] False
  show ?thesis by (simp add: exec_block_def match_block_def)
qed

lemma strict_prefix_decomp:
  assumes "strict_prefix p (''<tool_call>'' @ payload @ ''</tool_call>'')"
  shows "strict_prefix p ''<tool_call>'' \<or>
         (\<exists>pl r. p = ''<tool_call>'' @ pl @ r \<and> prefix pl payload \<and> prefix r ''</tool_call>''
                  \<and> r \<noteq> ''</tool_call>'')"
proof -
  from assms have pp: "prefix p (''<tool_call>'' @ (payload @ ''</tool_call>''))"
    and ne: "p \<noteq> ''<tool_call>'' @ payload @ ''</tool_call>''"
    by (simp_all add: strict_prefix_def)
  from pp consider "prefix p ''<tool_call>''"
    | q where "p = ''<tool_call>'' @ q" "prefix q (payload @ ''</tool_call>'')"
    unfolding prefix_append by blast
  then show ?thesis
  proof cases
    case 1
    show ?thesis
    proof (cases "p = ''<tool_call>''")
      case True
      then have "p = ''<tool_call>'' @ [] @ [] \<and> prefix [] payload \<and> prefix [] ''</tool_call>''
                   \<and> [] \<noteq> ''</tool_call>''"
        by simp
      then show ?thesis by blast
    next
      case False
      with 1 show ?thesis by (simp add: strict_prefix_def)
    qed
  next
    case 2
    from 2(2) consider "prefix q payload" | r where "q = payload @ r" "prefix r ''</tool_call>''"
      unfolding prefix_append by blast
    then show ?thesis
    proof cases
      case 1
      with 2(1) have "p = ''<tool_call>'' @ q @ [] \<and> prefix q payload \<and> prefix [] ''</tool_call>''
                        \<and> [] \<noteq> ''</tool_call>''"
        by simp
      then show ?thesis by blast
    next
      case b: 2
      with 2(1) ne have "r \<noteq> ''</tool_call>''" by auto
      with 2(1) b have "p = ''<tool_call>'' @ payload @ r \<and> prefix payload payload
                            \<and> prefix r ''</tool_call>'' \<and> r \<noteq> ''</tool_call>''"
        by simp
      then show ?thesis by blast
    qed
  qed
qed

lemma no_tag_in_prefix:
  "\<forall>t \<in> set all_tags. \<not> sublist t payload \<Longrightarrow> prefix pl payload
     \<Longrightarrow> \<forall>t \<in> set all_tags. \<not> sublist t pl"
  by (meson prefix_imp_sublist sublist_order.order.trans)

lemma exec_block_strict_prefix:
  assumes "\<forall>t \<in> set all_tags. \<not> sublist t payload"
    and "strict_prefix p (''<tool_call>'' @ payload @ ''</tool_call>'')"
  shows "exec_block d p = None"
  using strict_prefix_decomp [OF assms(2)]
proof
  assume "strict_prefix p ''<tool_call>''"
  then show ?thesis by (rule exec_block_short)
next
  assume "\<exists>pl r. p = ''<tool_call>'' @ pl @ r \<and> prefix pl payload \<and> prefix r ''</tool_call>''
                  \<and> r \<noteq> ''</tool_call>''"
  then obtain pl r where p: "p = ''<tool_call>'' @ pl @ r" "prefix pl payload"
      "prefix r ''</tool_call>''" "r \<noteq> ''</tool_call>''"
    by blast
  from exec_block_partial [OF no_tag_in_prefix [OF assms(1) p(2)] p(3,4), of d] p(1)
  show ?thesis by simp
qed

lemma visible_prefix_all:
  "\<forall>t \<in> set open_tags. \<not> sublist t p \<Longrightarrow> visible_prefix p = p"
proof (induction p)
  case Nil
  then show ?case by simp
next
  case (Cons c cs)
  then have "\<not> at_open_tag (c # cs)"
    by (auto simp: at_open_tag_iff dest: prefix_imp_sublist)
  moreover from Cons.prems have "\<forall>t \<in> set open_tags. \<not> sublist t cs"
    by (simp add: sublist_Cons_right)
  ultimately show ?case using Cons.IH by simp
qed

lemma visible_strict_prefix:
  assumes "strict_prefix p (''<tool_call>'' @ payload @ ''</tool_call>'')"
  shows "visible_prefix p = (if strict_prefix p ''<tool_call>'' then p else [])"
proof (cases "strict_prefix p ''<tool_call>''")
  case True
  have "\<forall>t \<in> set open_tags. \<not> sublist t p"
  proof
    fix t assume "t \<in> set open_tags"
    then have "t \<in> set all_tags" by (simp add: all_tags_def)
    from find_tag_open_beginning [OF this True] show "\<not> sublist t p"
      by (simp add: find_tag_None_iff)
  qed
  from visible_prefix_all [OF this] True show ?thesis by simp
next
  case False
  with strict_prefix_decomp [OF assms] obtain q where "p = ''<tool_call>'' @ q" by blast
  then have "visible_prefix p = []" by (simp add: at_open_tag_def)
  with False show ?thesis by simp
qed


lemma all_blocks_None: "exec_block d s = None \<Longrightarrow> all_blocks d s = []"
  by (subst all_blocks.simps) simp

lemma all_blocks_Some:
  "exec_block d s = Some (pre, inner, post) \<Longrightarrow> all_blocks d s = inner # all_blocks d post"
  by (subst all_blocks.simps) simp

lemma remove_blocks_None: "exec_block d s = None \<Longrightarrow> remove_blocks d s = s"
  by (subst remove_blocks.simps) simp

lemma remove_blocks_Some:
  "exec_block d s = Some (pre, inner, post) \<Longrightarrow> remove_blocks d s = pre @ remove_blocks d post"
  by (subst remove_blocks.simps) simp

lemma push_nothing:
  assumes "\<forall>d. exec_block d (buffer b @ chunk) = None"
  shows "push P chunk b = (None, b\<lparr>buffer := buffer b @ chunk\<rparr>)"
proof -
  from assms have "\<forall>d. all_blocks d (buffer b @ chunk) = []"
    by (simp add: all_blocks_None)
  then show ?thesis
    by (simp add: push_def parsed_blocks_def Let_def List.map_filter_simps)
qed

lemma exec_block_Nil: "exec_block d [] = None"
  by (cases d) (simp_all add: exec_block_def match_block_def)

lemma push_whole_block:
  assumes "protocol b = ToolProtocol \<or> protocol b = AutoProtocol"
    and "\<forall>t \<in> set all_tags. \<not> sublist t payload"
    and "parseToolCallPayload P payload (format b) = Inr v"
    and "buffer b @ chunk = ''<tool_call>'' @ payload @ ''</tool_call>''"
  shows "push P chunk b = (Some [v], b\<lparr>buffer := []\<rparr>)"
proof -
  define full where "full = ''<tool_call>'' @ payload @ ''</tool_call>''"
  have ex: "exec_block d full = (if d = ToolCall then Some ([], payload, []) else None)" for d
    unfolding full_def by (rule exec_block_full [OF assms(2)])
  have ab: "all_blocks ToolCall full = [payload]" "all_blocks ToolUse full = []"
      "all_blocks FunctionCall full = []"
    using ex [of ToolCall] ex [of ToolUse] ex [of FunctionCall]
    by (simp_all add: all_blocks_None all_blocks_Some [of _ _ "[]" payload "[]"] exec_block_Nil)
  have rm: "remove_all_blocks full = []"
    using ex [of ToolCall] ex [of ToolUse] ex [of FunctionCall]
    by (simp add: remove_all_blocks_def remove_blocks_None
                  remove_blocks_Some [of _ _ "[]" payload "[]"] exec_block_Nil)
  from assms(4) have bf: "buffer b @ chunk = full" by (simp add: full_def)
  from assms(1) show ?thesis
  proof
    assume "protocol b = ToolProtocol"
    with ab rm assms(3) bf show ?thesis
      by (simp add: push_def parsed_blocks_def Let_def List.map_filter_simps)
  next
    assume "protocol b = AutoProtocol"
    with ab rm assms(3) bf show ?thesis
      by (simp add: push_def parsed_blocks_def Let_def List.map_filter_simps)
  qed
qed

lemma push_all_block:
  assumes "proto = ToolProtocol \<or> proto = AutoProtocol"
    and "\<forall>t \<in> set all_tags. \<not> sublist t payload"
    and "parseToolCallPayload P payload fmt = Inr v"
  shows "chunks \<noteq> [] \<Longrightarrow> last chunks \<noteq> [] \<Longrightarrow> protocol b = proto \<Longrightarrow> format b = fmt \<Longrightarrow>
         buffer b @ concat chunks = ''<tool_call>'' @ payload @ ''</tool_call>'' \<Longrightarrow>
         length (fst (push_all P chunks b)) = length chunks \<and>
         last (fst (push_all P chunks b)) = (Some [v], []) \<and>
         buffer (snd (push_all P chunks b)) = [] \<and>
         (\<forall>i < length chunks - 1.
            fst (push_all P chunks b) ! i
              = (None, if strict_prefix (buffer b @ concat (take (Suc i) chunks)) ''<tool_call>''
                       then buffer b @ concat (take (Suc i) chunks) else []))"
proof (induction chunks arbitrary: b)
  case Nil
  then show ?case by simp
next
  case (Cons c cs)
  let ?full = "''<tool_call>'' @ payload @ ''</tool_call>''"
  show ?case
  proof (cases "cs = []")
    case True
    with Cons.prems have full: "buffer b @ c = ?full" by simp
    from push_whole_block [OF _ assms(2) _ full, of P v] assms(1,3) Cons.prems
    have "push P c b = (Some [v], b\<lparr>buffer := []\<rparr>)" by simp
    with True show ?thesis by (simp add: getVisibleContent_def)
  next
    case False
    with Cons.prems have "last cs \<noteq> []" "last cs \<in> set cs" by simp_all
    then have cc: "concat cs \<noteq> []" by auto
    from Cons.prems have eq: "?full = (buffer b @ c) @ concat cs" by simp
    then have "prefix (buffer b @ c) ?full" by (rule prefixI)
    moreover from eq cc have "buffer b @ c \<noteq> ?full" by (metis append_self_conv)
    ultimately have sp: "strict_prefix (buffer b @ c) ?full" by (rule prefix_order.le_neq_trans)
    from exec_block_strict_prefix [OF assms(2) sp]
    have p: "push P c b = (None, b\<lparr>buffer := buffer b @ c\<rparr>)"
      by (intro push_nothing) simp
    let ?b' = "b\<lparr>buffer := buffer b @ c\<rparr>"
    from Cons.prems False
    have ih: "length (fst (push_all P cs ?b')) = length cs \<and>
         last (fst (push_all P cs ?b')) = (Some [v], []) \<and>
         buffer (snd (push_all P cs ?b')) = [] \<and>
         (\<forall>i < length cs - 1.
            fst (push_all P cs ?b') ! i
              = (None, if strict_prefix (buffer ?b' @ concat (take (Suc i) cs)) ''<tool_call>''
                       then buffer ?b' @ concat (take (Suc i) cs) else []))"
      by (intro Cons.IH) simp_all
    obtain rs b'' where r: "push_all P cs ?b' = (rs, b'')" by (metis prod.exhaust)
    have vis: "getVisibleContent ?b'
                 = (if strict_prefix (buffer b @ c) ''<tool_call>'' then buffer b @ c else [])"
      using visible_strict_prefix [OF sp] by (simp add: getVisibleContent_def)
    from ih r have rs: "length rs = length cs" "last rs = (Some [v], [])" "buffer b'' = []"
      "\<forall>i < length cs - 1. rs ! i
          = (None, if strict_prefix (buffer b @ c @ concat (take (Suc i) cs)) ''<tool_call>''
                   then buffer b @ c @ concat (take (Suc i) cs) else [])"
      by simp_all
    from rs(1) False have ne: "rs \<noteq> []" by auto
    have all: "\<forall>i < length (c # cs) - 1.
            ((None, getVisibleContent ?b') # rs) ! i
              = (None, if strict_prefix (buffer b @ concat (take (Suc i) (c # cs))) ''<tool_call>''
                       then buffer b @ concat (take (Suc i) (c # cs)) else [])"
    proof (intro allI impI)
      fix i assume i: "i < length (c # cs) - 1"
      show "((None, getVisibleContent ?b') # rs) ! i
              = (None, if strict_prefix (buffer b @ concat (take (Suc i) (c # cs))) ''<tool_call>''
                       then buffer b @ concat (take (Suc i) (c # cs)) else [])"
      proof (cases i)
        case 0
        with vis show ?thesis by simp
      next
        case (Suc j)
        with i have "j < length cs - 1" by simp
        with rs(4) Suc show ?thesis by simp
      qed
    qed
    from p r rs ne all show ?thesis by simp
  qed
qed

text \<open>
  Claim C2, as the code has it. A block \<^verbatim>\<open><tool_call>payload</tool_call>\<close> whose
  payload holds no tag and decodes is pushed in pieces into a new buffer whose protocol
  has the dialect (\<^verbatim>\<open>tool\<close> or \<^verbatim>\<open>auto\<close>). Then the last push, which brings the end of
  the close tag, returns exactly the one decoded call and leaves the buffer empty; every
  push before it returns nothing. After such a push the visible content is empty once the
  open tag is complete; while the open tag is incomplete, the visible content is the
  part of the tag received so far.
\<close>

theorem split_block_detected_once:
  assumes "proto = ToolProtocol \<or> proto = AutoProtocol"
    and "\<forall>t \<in> set all_tags. \<not> sublist t payload"
    and "parseToolCallPayload P payload fmt = Inr v"
    and "concat chunks = ''<tool_call>'' @ payload @ ''</tool_call>''"
    and "last chunks \<noteq> []"
  shows "length (fst (push_all P chunks (new_buffer proto (Some fmt)))) = length chunks \<and>
         last (fst (push_all P chunks (new_buffer proto (Some fmt)))) = (Some [v], []) \<and>
         buffer (snd (push_all P chunks (new_buffer proto (Some fmt)))) = [] \<and>
         (\<forall>i < length chunks - 1.
            fst (push_all P chunks (new_buffer proto (Some fmt))) ! i
              = (None, if strict_prefix (concat (take (Suc i) chunks)) ''<tool_call>''
                       then concat (take (Suc i) chunks) else []))"
proof -
  from assms(4) have "chunks \<noteq> []" by auto
  from push_all_block [OF assms(1,2,3) this assms(5), of "new_buffer proto (Some fmt)"] assms(4)
  show ?thesis by (simp add: new_buffer_def)
qed



text \<open>
  The three tokens of the example: the visible content is \<open><to\<close> after the first
  push and empty after the second, and the third push reports the call.
\<close>

theorem split_block_detected_once_witness:
  "parseToolCallPayload demo_parsers call_x_text Json = Inr call_x \<and>
   concat [''<to'', ''ol_call>{\"name\":\"x\",\"argum'', ''ents\":{}}</tool_call>'']
     = ''<tool_call>'' @ call_x_text @ ''</tool_call>'' \<and>
   fst (push_all demo_parsers
          [''<to'', ''ol_call>{\"name\":\"x\",\"argum'', ''ents\":{}}</tool_call>'']
          (new_buffer ToolProtocol (Some Json))) ! 0 = (None, ''<to'') \<and>
   fst (push_all demo_parsers
          [''<to'', ''ol_call>{\"name\":\"x\",\"argum'', ''ents\":{}}</tool_call>'']
          (new_buffer ToolProtocol (Some Json))) ! 1 = (None, []) \<and>
   last (fst (push_all demo_parsers
          [''<to'', ''ol_call>{\"name\":\"x\",\"argum'', ''ents\":{}}</tool_call>'']
          (new_buffer ToolProtocol (Some Json)))) = (Some [call_x], [])"
proof -
  let ?chunks = "[''<to'', ''ol_call>{\"name\":\"x\",\"argum'', ''ents\":{}}</tool_call>'']"
  have h1: "\<forall>t \<in> set all_tags. \<not> sublist t call_x_text"
    by code_simp
  have h2: "parseToolCallPayload demo_parsers call_x_text Json = Inr call_x"
    by code_simp
  have h3: "concat ?chunks = ''<tool_call>'' @ call_x_text @ ''</tool_call>''"
    by (simp add: call_x_text_def)
  have h4: "last ?chunks \<noteq> []" by simp
  have s0: "strict_prefix (concat (take (Suc 0) ?chunks)) ''<tool_call>''"
    and s1: "\<not> strict_prefix (concat (take (Suc 1) ?chunks)) ''<tool_call>''"
    by simp_all
  from split_block_detected_once [OF _ h1 h2 h3 h4, of ToolProtocol]
  have r: "last (fst (push_all demo_parsers ?chunks (new_buffer ToolProtocol (Some Json))))
             = (Some [call_x], [])"
    and a: "\<forall>i < length ?chunks - 1.
              fst (push_all demo_parsers ?chunks (new_buffer ToolProtocol (Some Json))) ! i
                = (None, if strict_prefix (concat (take (Suc i) ?chunks)) ''<tool_call>''
                         then concat (take (Suc i) ?chunks) else [])"
    by blast+
  from a have "fst (push_all demo_parsers ?chunks (new_buffer ToolProtocol (Some Json))) ! 0
                 = (None, if strict_prefix (concat (take (Suc 0) ?chunks)) ''<tool_call>''
                          then concat (take (Suc 0) ?chunks) else [])"
    by simp
  with s0 have r0: "fst (push_all demo_parsers ?chunks (new_buffer ToolProtocol (Some Json))) ! 0
                 = (None, ''<to'')"
    by simp
  from a have "fst (push_all demo_parsers ?chunks (new_buffer ToolProtocol (Some Json))) ! 1
                 = (None, if strict_prefix (concat (take (Suc 1) ?chunks)) ''<tool_call>''
                          then concat (take (Suc 1) ?chunks) else [])"
    by simp
  with s1 have r1: "fst (push_all demo_parsers ?chunks (new_buffer ToolProtocol (Some Json))) ! 1
                 = (None, [])"
    by simp
  from h2 h3 r0 r1 r show ?thesis by blast
qed

text \<open>After the first token the visible content is the token, not the empty string.\<close>

theorem partial_open_tag_is_visible:
  "getVisibleContent (snd (push demo_parsers ''<to'' (new_buffer ToolProtocol (Some Json))))
     = ''<to'' \<and>
   getVisibleContent (snd (push demo_parsers ''<to'' (new_buffer ToolProtocol (Some Json))))
     \<noteq> []"
  by code_simp

end
